theory Spec2Isabelle
  imports Complex_Main "HOL-Library.AList" "HOL-Library.Multiset"
begin

section \<open>Python values, exceptions and builtins\<close>

text \<open>
  The scripts under \<^verbatim>\<open>data-visualization/\<close> are Python. An uncaught exception is
  a value \<open>Inl e\<close> of a sum type; a normal return is \<open>Inr v\<close>. Python floats are read as
  exact real numbers (no rounding, no \<^verbatim>\<open>inf\<close>, no \<^verbatim>\<open>nan\<close>), Python
  ints as \<open>int\<close>.
\<close>

datatype py_error = ValueError | IndexError | StopIteration | ZeroDivisionError

text \<open>
  Three library functions are called by the scripts and are not part of the repository:
  \<^verbatim>\<open>int(str)\<close>, \<^verbatim>\<open>float(str)\<close> (both raise \<^verbatim>\<open>ValueError\<close> on
  a string they do not accept: \<open>None\<close> here) and \<^verbatim>\<open>numpy.argsort\<close> with its
  default \<^verbatim>\<open>kind\<close>. The embedding takes them as parameters.
\<close>

record py_builtins =
  py_int :: "string \<Rightarrow> int option"
  py_float :: "string \<Rightarrow> real option"
  np_argsort :: "real list \<Rightarrow> nat list"

text \<open>
  What \<^verbatim>\<open>numpy.argsort\<close> promises for every kind: the result is a permutation of
  the positions that puts the keys in ascending order. The default kind
  (\<^verbatim>\<open>quicksort\<close>) is documented as not stable, so nothing is promised about
  the relative order of positions that hold equal keys.
\<close>

definition argsort_ok :: "py_builtins \<Rightarrow> bool" where
  "argsort_ok B \<longleftrightarrow>
     (\<forall>ks. mset (np_argsort B ks) = mset [0..<length ks] \<and>
           sorted (map (\<lambda>i. ks ! i) (np_argsort B ks)))"

subsection \<open>Concrete builtins for evaluation\<close>

text \<open>
  Plain decimal literals, as the benchmark files write them: an optional sign, digits,
  and for floats an optional fraction. (Python accepts more: surrounding blanks,
  underscores, exponents.)
\<close>

definition digit_of :: "char \<Rightarrow> nat option" where
  "digit_of c = (let n = (of_char c :: nat) in if 48 \<le> n \<and> n \<le> 57 then Some (n - 48) else None)"

fun digits_value :: "nat \<Rightarrow> string \<Rightarrow> nat option" where
  "digits_value acc [] = Some acc"
| "digits_value acc (c # cs) =
     (case digit_of c of None \<Rightarrow> None | Some d \<Rightarrow> digits_value (10 * acc + d) cs)"

definition nat_literal :: "string \<Rightarrow> nat option" where
  "nat_literal s = (if s = [] then None else digits_value 0 s)"

definition strip_sign :: "string \<Rightarrow> bool \<times> string" where
  "strip_sign s =
     (case s of
        [] \<Rightarrow> (False, [])
      | c # r \<Rightarrow> if c = CHR ''-'' then (True, r) else if c = CHR ''+'' then (False, r) else (False, s))"

definition int_literal :: "string \<Rightarrow> int option" where
  "int_literal s =
     (case strip_sign s of
        (neg, r) \<Rightarrow>
          (case nat_literal r of
             None \<Rightarrow> None
           | Some n \<Rightarrow> Some (if neg then - int n else int n)))"

text \<open>\<^verbatim>\<open>str.split(sep)\<close> for a one-character separator: never an empty list.\<close>

fun split_on :: "char \<Rightarrow> string \<Rightarrow> string list" where
  "split_on sep [] = [[]]"
| "split_on sep (c # cs) =
     (if c = sep then [] # split_on sep cs
      else (case split_on sep cs of [] \<Rightarrow> [[c]] | p # ps \<Rightarrow> (c # p) # ps))"

definition unsigned_float_literal :: "string \<Rightarrow> real option" where
  "unsigned_float_literal s =
     (case split_on CHR ''.'' s of
        [i] \<Rightarrow> map_option real (nat_literal i)
      | [i, f] \<Rightarrow>
          (if i = [] \<and> f = [] then None
           else (case (if i = [] then Some 0 else nat_literal i) of
                   None \<Rightarrow> None
                 | Some a \<Rightarrow>
                     (case (if f = [] then Some 0 else nat_literal f) of
                        None \<Rightarrow> None
                      | Some b \<Rightarrow> Some (real a + real b / 10 ^ length f))))
      | _ \<Rightarrow> None)"

definition float_literal :: "string \<Rightarrow> real option" where
  "float_literal s =
     (case strip_sign s of
        (neg, r) \<Rightarrow> map_option (\<lambda>x. if neg then - x else x) (unsigned_float_literal r))"

text \<open>An argsort that keeps equal keys in input order, and one that reverses them.\<close>

definition stable_argsort :: "real list \<Rightarrow> nat list" where
  "stable_argsort ks = sort_key (\<lambda>i. ks ! i) [0..<length ks]"

definition reversing_argsort :: "real list \<Rightarrow> nat list" where
  "reversing_argsort ks = sort_key (\<lambda>i. ks ! i) (rev [0..<length ks])"

definition std :: py_builtins where
  "std = \<lparr>py_int = int_literal, py_float = float_literal, np_argsort = stable_argsort\<rparr>"

definition alt :: py_builtins where
  "alt = \<lparr>py_int = int_literal, py_float = float_literal, np_argsort = reversing_argsort\<rparr>"

section \<open>Duration parsing\<close>

text \<open>
  \<^verbatim>\<open>parse_time\<close> (the same text in \<^verbatim>\<open>analyze_compression.py\<close>,
  \<^verbatim>\<open>visualize.py\<close> and \<^verbatim>\<open>visualize_json.py\<close>). \<^verbatim>\<open>not time_str\<close> holds for
  \<^verbatim>\<open>None\<close> and for the empty string.
\<close>

definition parse_time :: "py_builtins \<Rightarrow> string option \<Rightarrow> py_error + real" where
  "parse_time B time_str =
     (case time_str of
        None \<Rightarrow> Inr 0
      | Some s \<Rightarrow>
          if s = [] then Inr 0
          else (case split_on CHR '':'' s of
                  [p0, p1] \<Rightarrow>
                    (case py_float B p0 of
                       None \<Rightarrow> Inl ValueError
                     | Some minutes \<Rightarrow>
                         (case py_float B p1 of
                            None \<Rightarrow> Inl ValueError
                          | Some seconds \<Rightarrow> Inr (minutes * 60 + seconds)))
                | [p0, p1, p2] \<Rightarrow>
                    (case py_float B p0 of
                       None \<Rightarrow> Inl ValueError
                     | Some hours \<Rightarrow>
                         (case py_float B p1 of
                            None \<Rightarrow> Inl ValueError
                          | Some minutes \<Rightarrow>
                              (case py_float B p2 of
                                 None \<Rightarrow> Inl ValueError
                               | Some seconds \<Rightarrow> Inr (hours * 3600 + minutes * 60 + seconds))))
                | _ \<Rightarrow> Inr 0))"

text \<open>
  The reference definition of the duration parser as the specification words it: one
  part is seconds, two parts are minutes and seconds, three parts are hours, minutes and
  seconds, and only a part count of 0 or at least 4 gives the fallback \<open>0.0\<close>.
\<close>

definition parse_time_reference :: "py_builtins \<Rightarrow> string option \<Rightarrow> py_error + real" where
  "parse_time_reference B time_str =
     (case time_str of
        None \<Rightarrow> Inr 0
      | Some s \<Rightarrow>
          if s = [] then Inr 0
          else (case split_on CHR '':'' s of
                  [p0] \<Rightarrow>
                    (case py_float B p0 of
                       None \<Rightarrow> Inl ValueError
                     | Some seconds \<Rightarrow> Inr seconds)
                | [p0, p1] \<Rightarrow>
                    (case py_float B p0 of
                       None \<Rightarrow> Inl ValueError
                     | Some minutes \<Rightarrow>
                         (case py_float B p1 of
                            None \<Rightarrow> Inl ValueError
                          | Some seconds \<Rightarrow> Inr (60 * minutes + seconds)))
                | [p0, p1, p2] \<Rightarrow>
                    (case py_float B p0 of
                       None \<Rightarrow> Inl ValueError
                     | Some hours \<Rightarrow>
                         (case py_float B p1 of
                            None \<Rightarrow> Inl ValueError
                          | Some minutes \<Rightarrow>
                              (case py_float B p2 of
                                 None \<Rightarrow> Inl ValueError
                               | Some seconds \<Rightarrow> Inr (3600 * hours + 60 * minutes + seconds))))
                | _ \<Rightarrow> Inr 0))"

section \<open>Level keys\<close>

text \<open>
  A level identifier becomes a Python int or, failing that, a Python float
  (\<^verbatim>\<open>analyze_compression.py\<close>, \<^verbatim>\<open>extract_data\<close>: \<^verbatim>\<open>try: int(level)\<close>,
  \<^verbatim>\<open>except ValueError: float(level)\<close>; a \<^verbatim>\<open>ValueError\<close> of the second call
  is not caught).
\<close>

datatype level = LInt int | LFloat real

fun level_value :: "level \<Rightarrow> real" where
  "level_value (LInt i) = of_int i"
| "level_value (LFloat x) = x"

definition level_key :: "py_builtins \<Rightarrow> string \<Rightarrow> py_error + level" where
  "level_key B level =
     (case py_int B level of
        Some i \<Rightarrow> Inr (LInt i)
      | None \<Rightarrow>
          (case py_float B level of
             Some x \<Rightarrow> Inr (LFloat x)
           | None \<Rightarrow> Inl ValueError))"

text \<open>
  \<^verbatim>\<open>visualize.py\<close> (\<^verbatim>\<open>extract_data\<close>) and \<^verbatim>\<open>visualize_json.py\<close>
  (\<^verbatim>\<open>process_data\<close>) call \<^verbatim>\<open>int(level)\<close> alone.
\<close>

definition level_key_int_only :: "py_builtins \<Rightarrow> string \<Rightarrow> py_error + int" where
  "level_key_int_only B level =
     (case py_int B level of
        Some i \<Rightarrow> Inr i
      | None \<Rightarrow> Inl ValueError)"

section \<open>The input document\<close>

text \<open>
  The parsed JSON: a list of objects; each maps a file name to an object that maps an
  algorithm name to an object that maps a level identifier to the measurements. A Python
  dict keeps insertion order, so an object is an association list.
\<close>

record compression_rec =
  originalSize :: int
  compressedSize :: int
  compressionRatio :: real
  compressedPercentage :: string
  real_c :: "string option"
  max_c :: int

record decompression_rec =
  real_d :: "string option"
  max_d :: int

record level_metrics =
  compression :: compression_rec
  decompression :: decompression_rec

type_synonym levels_dict = "(string \<times> level_metrics) list"
type_synonym algorithms_dict = "(string \<times> levels_dict) list"
type_synonym file_data = "(string \<times> algorithms_dict) list"
type_synonym json_data = "file_data list"

section \<open>Normalization in analyze\_compression.py and visualize.py\<close>

record series =
  compression_levels :: "level list"
  compression_ratio :: "real list"
  compressed_percentage :: "real list"
  compression_time :: "real list"
  decompression_time :: "real list"
  original_size :: "int option"
  compressed_size :: "int list"
  memory_usage :: "int list"

type_synonym algorithm_results = "(string \<times> series) list"
type_synonym results = "(string \<times> algorithm_results) list"

definition new_series :: series where
  "new_series =
     \<lparr>compression_levels = [], compression_ratio = [], compressed_percentage = [],
      compression_time = [], decompression_time = [], original_size = None,
      compressed_size = [], memory_usage = []\<rparr>"

text \<open>The body of \<^verbatim>\<open>for level, metrics in levels.items()\<close>.\<close>

definition append_level :: "py_builtins \<Rightarrow> series \<Rightarrow> string \<times> level_metrics \<Rightarrow> py_error + series" where
  "append_level B s lm =
     (case lm of
        (level, metrics) \<Rightarrow>
          (let comp_data = compression metrics; decomp_data = decompression metrics in
           case level_key B level of
             Inl e \<Rightarrow> Inl e
           | Inr level_int \<Rightarrow>
               (case py_float B (compressedPercentage comp_data) of
                  None \<Rightarrow> Inl ValueError
                | Some percentage \<Rightarrow>
                    (case parse_time B (real_c comp_data) of
                       Inl e \<Rightarrow> Inl e
                     | Inr ctime \<Rightarrow>
                         (case parse_time B (real_d decomp_data) of
                            Inl e \<Rightarrow> Inl e
                          | Inr dtime \<Rightarrow>
                              Inr (s\<lparr>compression_levels := compression_levels s @ [level_int],
                                     compression_ratio := compression_ratio s @ [compressionRatio comp_data],
                                     compressed_percentage := compressed_percentage s @ [percentage],
                                     compression_time := compression_time s @ [ctime],
                                     decompression_time := decompression_time s @ [dtime],
                                     compressed_size := compressed_size s @ [compressedSize comp_data],
                                     memory_usage := memory_usage s @ [max_c comp_data]\<rparr>))))))"

fun process_levels :: "py_builtins \<Rightarrow> series \<Rightarrow> levels_dict \<Rightarrow> py_error + series" where
  "process_levels B s [] = Inr s"
| "process_levels B s (lm # rest) =
     (case append_level B s lm of
        Inl e \<Rightarrow> Inl e
      | Inr s' \<Rightarrow> process_levels B s' rest)"

text \<open>
  The body of \<^verbatim>\<open>for algorithm, levels in algorithms.items()\<close>: find or create the
  series, set \<^verbatim>\<open>original_size\<close> from the first level while it is \<^verbatim>\<open>None\<close>
  (\<^verbatim>\<open>list(levels.keys())[0]\<close> raises \<^verbatim>\<open>IndexError\<close> on an empty object), then
  append every level.
\<close>

definition extract_algorithm ::
    "py_builtins \<Rightarrow> algorithm_results \<Rightarrow> string \<times> levels_dict \<Rightarrow> py_error + algorithm_results" where
  "extract_algorithm B res al =
     (case al of
        (algorithm, levels) \<Rightarrow>
          (let s0 = (case map_of res algorithm of None \<Rightarrow> new_series | Some s \<Rightarrow> s) in
           case (if original_size s0 = None
                 then (case levels of
                         [] \<Rightarrow> Inl IndexError
                       | (first_level, m) # _ \<Rightarrow>
                           Inr (s0\<lparr>original_size := Some (originalSize (compression m))\<rparr>))
                 else Inr s0) of
             Inl e \<Rightarrow> Inl e
           | Inr s1 \<Rightarrow>
               (case process_levels B s1 levels of
                  Inl e \<Rightarrow> Inl e
                | Inr s2 \<Rightarrow> Inr (AList.update algorithm s2 res))))"

fun extract_algorithms ::
    "py_builtins \<Rightarrow> algorithm_results \<Rightarrow> algorithms_dict \<Rightarrow> py_error + algorithm_results" where
  "extract_algorithms B res [] = Inr res"
| "extract_algorithms B res (al # rest) =
     (case extract_algorithm B res al of
        Inl e \<Rightarrow> Inl e
      | Inr res' \<Rightarrow> extract_algorithms B res' rest)"

text \<open>The body of \<^verbatim>\<open>for filename, algorithms in file_data.items()\<close>.\<close>

definition extract_file :: "py_builtins \<Rightarrow> results \<Rightarrow> string \<times> algorithms_dict \<Rightarrow> py_error + results" where
  "extract_file B rs fa =
     (case fa of
        (filename, algorithms) \<Rightarrow>
          (let r0 = (case map_of rs filename of None \<Rightarrow> [] | Some r \<Rightarrow> r) in
           case extract_algorithms B r0 algorithms of
             Inl e \<Rightarrow> Inl e
           | Inr r1 \<Rightarrow> Inr (AList.update filename r1 rs)))"

fun extract_files :: "py_builtins \<Rightarrow> results \<Rightarrow> file_data \<Rightarrow> py_error + results" where
  "extract_files B rs [] = Inr rs"
| "extract_files B rs (fa # rest) =
     (case extract_file B rs fa of
        Inl e \<Rightarrow> Inl e
      | Inr rs' \<Rightarrow> extract_files B rs' rest)"

fun extract_json :: "py_builtins \<Rightarrow> results \<Rightarrow> json_data \<Rightarrow> py_error + results" where
  "extract_json B rs [] = Inr rs"
| "extract_json B rs (file_data # rest) =
     (case extract_files B rs file_data of
        Inl e \<Rightarrow> Inl e
      | Inr rs' \<Rightarrow> extract_json B rs' rest)"

text \<open>
  \<^verbatim>\<open>[xs[i] for i in indices]\<close>: a position beyond the list raises
  \<^verbatim>\<open>IndexError\<close>.
\<close>

definition take_indices :: "'a list \<Rightarrow> nat list \<Rightarrow> py_error + 'a list" where
  "take_indices xs indices =
     (if list_all (\<lambda>i. i < length xs) indices then Inr (map (\<lambda>i. xs ! i) indices)
      else Inl IndexError)"

text \<open>
  The sort of one series: \<^verbatim>\<open>indices = np.argsort(compression_levels)\<close>, then each of
  the seven lists is rebuilt from \<^verbatim>\<open>indices\<close>; \<^verbatim>\<open>original_size\<close> is left alone.
\<close>

definition sort_series :: "py_builtins \<Rightarrow> series \<Rightarrow> py_error + series" where
  "sort_series B s =
     (let indices = np_argsort B (map level_value (compression_levels s)) in
      case take_indices (compression_levels s) indices of
        Inl e \<Rightarrow> Inl e
      | Inr ls \<Rightarrow>
      (case take_indices (compression_ratio s) indices of
        Inl e \<Rightarrow> Inl e
      | Inr rs \<Rightarrow>
      (case take_indices (compressed_percentage s) indices of
        Inl e \<Rightarrow> Inl e
      | Inr ps \<Rightarrow>
      (case take_indices (compression_time s) indices of
        Inl e \<Rightarrow> Inl e
      | Inr cts \<Rightarrow>
      (case take_indices (decompression_time s) indices of
        Inl e \<Rightarrow> Inl e
      | Inr dts \<Rightarrow>
      (case take_indices (compressed_size s) indices of
        Inl e \<Rightarrow> Inl e
      | Inr szs \<Rightarrow>
      (case take_indices (memory_usage s) indices of
        Inl e \<Rightarrow> Inl e
      | Inr ms \<Rightarrow>
          Inr (s\<lparr>compression_levels := ls, compression_ratio := rs,
                 compressed_percentage := ps, compression_time := cts,
                 decompression_time := dts, compressed_size := szs,
                 memory_usage := ms\<rparr>))))))))"

fun sort_algorithms :: "py_builtins \<Rightarrow> algorithm_results \<Rightarrow> py_error + algorithm_results" where
  "sort_algorithms B [] = Inr []"
| "sort_algorithms B ((algorithm, s) # rest) =
     (case sort_series B s of
        Inl e \<Rightarrow> Inl e
      | Inr s' \<Rightarrow>
          (case sort_algorithms B rest of
             Inl e \<Rightarrow> Inl e
           | Inr rest' \<Rightarrow> Inr ((algorithm, s') # rest')))"

text \<open>
  \<^verbatim>\<open>sort_data_by_level\<close> of \<^verbatim>\<open>visualize.py\<close>; the last loop of
  \<^verbatim>\<open>extract_data\<close> in \<^verbatim>\<open>analyze_compression.py\<close> is the same loop.
\<close>

fun sort_data_by_level :: "py_builtins \<Rightarrow> results \<Rightarrow> py_error + results" where
  "sort_data_by_level B [] = Inr []"
| "sort_data_by_level B ((filename, algorithms) # rest) =
     (case sort_algorithms B algorithms of
        Inl e \<Rightarrow> Inl e
      | Inr algorithms' \<Rightarrow>
          (case sort_data_by_level B rest of
             Inl e \<Rightarrow> Inl e
           | Inr rest' \<Rightarrow> Inr ((filename, algorithms') # rest')))"

definition extract_data :: "py_builtins \<Rightarrow> json_data \<Rightarrow> py_error + results" where
  "extract_data B json_data =
     (case extract_json B [] json_data of
        Inl e \<Rightarrow> Inl e
      | Inr rs \<Rightarrow> sort_data_by_level B rs)"

text \<open>
  The level records of one (file, algorithm) pair in the order the loops of
  \<^verbatim>\<open>extract_data\<close> meet them.
\<close>

definition algorithm_levels :: "algorithms_dict \<Rightarrow> string \<Rightarrow> levels_dict" where
  "algorithm_levels algorithms algorithm =
     concat (map (\<lambda>(a, levels). if a = algorithm then levels else []) algorithms)"

definition file_levels :: "file_data \<Rightarrow> string \<Rightarrow> string \<Rightarrow> levels_dict" where
  "file_levels file_data filename algorithm =
     concat (map (\<lambda>(f, algorithms). if f = filename then algorithm_levels algorithms algorithm else [])
                 file_data)"

definition levels_encountered :: "json_data \<Rightarrow> string \<Rightarrow> string \<Rightarrow> levels_dict" where
  "levels_encountered json_data filename algorithm =
     file_levels (concat json_data) filename algorithm"

definition lookup_series :: "results \<Rightarrow> string \<Rightarrow> string \<Rightarrow> series option" where
  "lookup_series rs filename algorithm =
     (case map_of rs filename of
        None \<Rightarrow> None
      | Some algorithms \<Rightarrow> map_of algorithms algorithm)"

text \<open>The per-level records of a series, one tuple per position.\<close>

definition level_records :: "series \<Rightarrow> (level \<times> real \<times> real \<times> real \<times> real \<times> int \<times> int) list" where
  "level_records s =
     zip (compression_levels s) (zip (compression_ratio s) (zip (compressed_percentage s)
       (zip (compression_time s) (zip (decompression_time s)
         (zip (compressed_size s) (memory_usage s))))))"

definition same_lengths :: "series \<Rightarrow> bool" where
  "same_lengths s \<longleftrightarrow>
     length (compression_ratio s) = length (compression_levels s) \<and>
     length (compressed_percentage s) = length (compression_levels s) \<and>
     length (compression_time s) = length (compression_levels s) \<and>
     length (decompression_time s) = length (compression_levels s) \<and>
     length (compressed_size s) = length (compression_levels s) \<and>
     length (memory_usage s) = length (compression_levels s)"

text \<open>
  What the loops of \<^verbatim>\<open>extract_data\<close> maintain, with \<open>es\<close> the level records met so
  far for one (file, algorithm) pair: the seven lists have one length, the number of
  records met, and \<^verbatim>\<open>original_size\<close> is that of the first record met.
\<close>

definition series_records :: "series \<Rightarrow> levels_dict \<Rightarrow> bool" where
  "series_records s es \<longleftrightarrow>
     same_lengths s \<and> length (compression_levels s) = length es \<and>
     (case es of
        [] \<Rightarrow> False
      | (k, m) # rest \<Rightarrow> original_size s = Some (originalSize (compression m)))"

definition algorithms_hold :: "algorithm_results \<Rightarrow> (string \<Rightarrow> levels_dict) \<Rightarrow> bool" where
  "algorithms_hold res E \<longleftrightarrow>
     (\<forall>a. case map_of res a of None \<Rightarrow> E a = [] | Some s \<Rightarrow> series_records s (E a))"

definition results_hold :: "results \<Rightarrow> (string \<Rightarrow> string \<Rightarrow> levels_dict) \<Rightarrow> bool" where
  "results_hold rs E \<longleftrightarrow>
     (\<forall>f. case map_of rs f of
            None \<Rightarrow> (\<forall>a. E f a = [])
          | Some res \<Rightarrow> algorithms_hold res (E f))"

text \<open>
  Stability as the specification words it: among the records with one level key, the
  output keeps the order of the input.
\<close>

definition keeps_input_order ::
    "(level \<times> 'a) list \<Rightarrow> (level \<times> 'a) list \<Rightarrow> bool" where
  "keeps_input_order inp out \<longleftrightarrow>
     list_all (\<lambda>k. filter (\<lambda>r. level_value (fst r) = k) out =
                   filter (\<lambda>r. level_value (fst r) = k) inp)
              (map (level_value \<circ> fst) inp)"

section \<open>Normalization in visualize\_json.py\<close>

record series_j =
  levels_j :: "int list"
  ratios :: "real list"
  compressed_sizes :: "int list"
  compression_times :: "real list"
  decompression_times :: "real list"
  memory_usage_j :: "int list"
  original_size_j :: "int option"

type_synonym algorithm_results_j = "(string \<times> series_j) list"
type_synonym results_j = "(string \<times> algorithm_results_j) list"

definition new_series_j :: series_j where
  "new_series_j =
     \<lparr>levels_j = [], ratios = [], compressed_sizes = [], compression_times = [],
      decompression_times = [], memory_usage_j = [], original_size_j = None\<rparr>"

definition append_level_j ::
    "py_builtins \<Rightarrow> series_j \<Rightarrow> string \<times> level_metrics \<Rightarrow> py_error + series_j" where
  "append_level_j B s ld =
     (case ld of
        (level, data) \<Rightarrow>
          (case level_key_int_only B level of
             Inl e \<Rightarrow> Inl e
           | Inr l \<Rightarrow>
               (case parse_time B (real_c (compression data)) of
                  Inl e \<Rightarrow> Inl e
                | Inr ctime \<Rightarrow>
                    (case parse_time B (real_d (decompression data)) of
                       Inl e \<Rightarrow> Inl e
                     | Inr dtime \<Rightarrow>
                         Inr (s\<lparr>levels_j := levels_j s @ [l],
                                ratios := ratios s @ [compressionRatio (compression data)],
                                compressed_sizes := compressed_sizes s @ [compressedSize (compression data)],
                                compression_times := compression_times s @ [ctime],
                                decompression_times := decompression_times s @ [dtime],
                                memory_usage_j := memory_usage_j s @ [max_c (compression data)]\<rparr>)))))"

fun process_levels_j :: "py_builtins \<Rightarrow> series_j \<Rightarrow> levels_dict \<Rightarrow> py_error + series_j" where
  "process_levels_j B s [] = Inr s"
| "process_levels_j B s (ld # rest) =
     (case append_level_j B s ld of
        Inl e \<Rightarrow> Inl e
      | Inr s' \<Rightarrow> process_levels_j B s' rest)"

definition sort_series_j :: "py_builtins \<Rightarrow> series_j \<Rightarrow> py_error + series_j" where
  "sort_series_j B s =
     (let indices = np_argsort B (map of_int (levels_j s)) in
      case take_indices (levels_j s) indices of
        Inl e \<Rightarrow> Inl e
      | Inr ls \<Rightarrow>
      (case take_indices (ratios s) indices of
        Inl e \<Rightarrow> Inl e
      | Inr rs \<Rightarrow>
      (case take_indices (compressed_sizes s) indices of
        Inl e \<Rightarrow> Inl e
      | Inr szs \<Rightarrow>
      (case take_indices (compression_times s) indices of
        Inl e \<Rightarrow> Inl e
      | Inr cts \<Rightarrow>
      (case take_indices (decompression_times s) indices of
        Inl e \<Rightarrow> Inl e
      | Inr dts \<Rightarrow>
      (case take_indices (memory_usage_j s) indices of
        Inl e \<Rightarrow> Inl e
      | Inr ms \<Rightarrow>
          Inr (s\<lparr>levels_j := ls, ratios := rs, compressed_sizes := szs,
                 compression_times := cts, decompression_times := dts,
                 memory_usage_j := ms\<rparr>)))))))"

text \<open>
  The body of \<^verbatim>\<open>for algorithm, levels in algorithms.items()\<close>: a fresh series
  every time, \<^verbatim>\<open>original_size\<close> from \<^verbatim>\<open>next(iter(levels.values()))\<close>
  (\<^verbatim>\<open>StopIteration\<close> on an empty object), every level appended, then the sort.
\<close>

definition process_algorithm ::
    "py_builtins \<Rightarrow> algorithm_results_j \<Rightarrow> string \<times> levels_dict \<Rightarrow> py_error + algorithm_results_j" where
  "process_algorithm B res al =
     (case al of
        (algorithm, levels) \<Rightarrow>
          (case levels of
             [] \<Rightarrow> Inl StopIteration
           | (k, first_level) # _ \<Rightarrow>
               (let s1 = new_series_j\<lparr>original_size_j := Some (originalSize (compression first_level))\<rparr> in
                case process_levels_j B s1 levels of
                  Inl e \<Rightarrow> Inl e
                | Inr s2 \<Rightarrow>
                    (case sort_series_j B s2 of
                       Inl e \<Rightarrow> Inl e
                     | Inr s3 \<Rightarrow> Inr (AList.update algorithm s3 res)))))"

fun process_algorithms ::
    "py_builtins \<Rightarrow> algorithm_results_j \<Rightarrow> algorithms_dict \<Rightarrow> py_error + algorithm_results_j" where
  "process_algorithms B res [] = Inr res"
| "process_algorithms B res (al # rest) =
     (case process_algorithm B res al of
        Inl e \<Rightarrow> Inl e
      | Inr res' \<Rightarrow> process_algorithms B res' rest)"

text \<open>
  The body of \<^verbatim>\<open>for test_name, algorithms in test_data.items()\<close>:
  \<^verbatim>\<open>results[test_name] = {}\<close> whether or not the name is there already.
\<close>

definition process_test :: "py_builtins \<Rightarrow> results_j \<Rightarrow> string \<times> algorithms_dict \<Rightarrow> py_error + results_j" where
  "process_test B rs ta =
     (case ta of
        (test_name, algorithms) \<Rightarrow>
          (case process_algorithms B [] algorithms of
             Inl e \<Rightarrow> Inl e
           | Inr r1 \<Rightarrow> Inr (AList.update test_name r1 rs)))"

fun process_tests :: "py_builtins \<Rightarrow> results_j \<Rightarrow> file_data \<Rightarrow> py_error + results_j" where
  "process_tests B rs [] = Inr rs"
| "process_tests B rs (ta # rest) =
     (case process_test B rs ta of
        Inl e \<Rightarrow> Inl e
      | Inr rs' \<Rightarrow> process_tests B rs' rest)"

fun process_json :: "py_builtins \<Rightarrow> results_j \<Rightarrow> json_data \<Rightarrow> py_error + results_j" where
  "process_json B rs [] = Inr rs"
| "process_json B rs (test_data # rest) =
     (case process_tests B rs test_data of
        Inl e \<Rightarrow> Inl e
      | Inr rs' \<Rightarrow> process_json B rs' rest)"

definition process_data :: "py_builtins \<Rightarrow> json_data \<Rightarrow> py_error + results_j" where
  "process_data B json_data = process_json B [] json_data"

text \<open>
  The fields the two models share, to compare them: a series of \<^verbatim>\<open>extract_data\<close>
  read as a series of \<^verbatim>\<open>process_data\<close>. A level that is a Python float has no
  counterpart.
\<close>

fun level_int :: "level \<Rightarrow> int option" where
  "level_int (LInt i) = Some i"
| "level_int (LFloat x) = None"

definition int_levels :: "series \<Rightarrow> bool" where
  "int_levels s \<longleftrightarrow> list_all (\<lambda>l. level_int l \<noteq> None) (compression_levels s)"

definition as_series_j :: "series \<Rightarrow> series_j" where
  "as_series_j s =
     \<lparr>levels_j = map (\<lambda>l. case l of LInt i \<Rightarrow> i | LFloat x \<Rightarrow> 0) (compression_levels s),
      ratios = compression_ratio s,
      compressed_sizes = compressed_size s,
      compression_times = compression_time s,
      decompression_times = decompression_time s,
      memory_usage_j = memory_usage s,
      original_size_j = original_size s\<rparr>"

definition common_fields :: "series \<Rightarrow> series_j option" where
  "common_fields s = (if int_levels s then Some (as_series_j s) else None)"

definition same_model :: "results \<Rightarrow> results_j \<Rightarrow> bool" where
  "same_model rs rj \<longleftrightarrow>
     list_all2 (\<lambda>(f, algorithms) (t, algorithms_j).
                  f = t \<and> list_all2 (\<lambda>(a, s) (b, sj). a = b \<and> common_fields s = Some sj)
                                   algorithms algorithms_j)
               rs rj"


text \<open>
  How the two routines run side by side: \<^verbatim>\<open>extract_data\<close> holds a series unsorted
  until its last loop, \<^verbatim>\<open>process_data\<close> holds the same series already sorted.
\<close>

definition series_agree :: "py_builtins \<Rightarrow> series \<Rightarrow> series_j \<Rightarrow> bool" where
  "series_agree B s sj \<longleftrightarrow>
     int_levels s \<and> same_lengths s \<and>
     (case sort_series B s of Inl e \<Rightarrow> False | Inr s' \<Rightarrow> sj = as_series_j s')"

definition algorithms_agree :: "py_builtins \<Rightarrow> algorithm_results \<Rightarrow> algorithm_results_j \<Rightarrow> bool" where
  "algorithms_agree B res resj \<longleftrightarrow>
     list_all2 (\<lambda>(a, s) (b, sj). a = b \<and> series_agree B s sj) res resj"

definition results_agree :: "py_builtins \<Rightarrow> results \<Rightarrow> results_j \<Rightarrow> bool" where
  "results_agree B rs rsj \<longleftrightarrow>
     list_all2 (\<lambda>(f, res) (g, resj). f = g \<and> algorithms_agree B res resj) rs rsj"

text \<open>
  The documents on which the two routines are compared: no file name occurs twice, no
  algorithm name occurs twice under one file, every algorithm has a level, every level
  identifier is accepted by \<^verbatim>\<open>int\<close> and every \<^verbatim>\<open>compressedPercentage\<close> by
  \<^verbatim>\<open>float\<close>.
\<close>

definition level_plain :: "py_builtins \<Rightarrow> string \<times> level_metrics \<Rightarrow> bool" where
  "level_plain B lm \<longleftrightarrow>
     (case lm of
        (level, m) \<Rightarrow>
          py_int B level \<noteq> None \<and> py_float B (compressedPercentage (compression m)) \<noteq> None)"

definition algorithm_plain :: "py_builtins \<Rightarrow> string \<times> levels_dict \<Rightarrow> bool" where
  "algorithm_plain B al \<longleftrightarrow> (case al of (a, levels) \<Rightarrow> levels \<noteq> [] \<and> list_all (level_plain B) levels)"

definition file_plain :: "py_builtins \<Rightarrow> string \<times> algorithms_dict \<Rightarrow> bool" where
  "file_plain B fa \<longleftrightarrow>
     (case fa of
        (f, algorithms) \<Rightarrow> distinct (map fst algorithms) \<and> list_all (algorithm_plain B) algorithms)"

definition plain_document :: "py_builtins \<Rightarrow> json_data \<Rightarrow> bool" where
  "plain_document B json_data \<longleftrightarrow>
     distinct (map fst (concat json_data)) \<and> list_all (file_plain B) (concat json_data)"

section \<open>Derived values\<close>

text \<open>
  \<^verbatim>\<open>plot_compression_efficiency\<close>: the list
  \<^verbatim>\<open>[ratio / (time + 0.001) for ratio, time in zip(...)]\<close>. Python raises
  \<^verbatim>\<open>ZeroDivisionError\<close> on a float division by zero.
\<close>

definition efficiency_of :: "real \<Rightarrow> real \<Rightarrow> py_error + real" where
  "efficiency_of ratio time =
     (if time + 0.001 = 0 then Inl ZeroDivisionError else Inr (ratio / (time + 0.001)))"

fun efficiency_list :: "real list \<Rightarrow> real list \<Rightarrow> py_error + real list" where
  "efficiency_list (ratio # rs) (time # ts) =
     (case efficiency_of ratio time of
        Inl e \<Rightarrow> Inl e
      | Inr x \<Rightarrow>
          (case efficiency_list rs ts of
             Inl e \<Rightarrow> Inl e
           | Inr xs \<Rightarrow> Inr (x # xs)))"
| "efficiency_list _ _ = Inr []"

definition plot_compression_efficiency :: "series \<Rightarrow> py_error + real list" where
  "plot_compression_efficiency metrics =
     efficiency_list (compression_ratio metrics) (compression_time metrics)"

text \<open>
  The detailed table of \<^verbatim>\<open>generate_summary_table\<close>: one row per position of
  \<^verbatim>\<open>compression_levels\<close>, every other list read at the same position.
\<close>

record detail_row =
  row_algorithm :: string
  row_level :: level
  row_ratio :: real
  row_compressed_size :: int
  row_percent :: real
  row_compression_time :: real
  row_decompression_time :: real
  row_memory :: int

definition detail_row_at :: "string \<Rightarrow> series \<Rightarrow> nat \<Rightarrow> py_error + detail_row" where
  "detail_row_at algorithm metrics i =
     (if i < length (compression_ratio metrics) \<and> i < length (compressed_size metrics) \<and>
         i < length (compressed_percentage metrics) \<and> i < length (compression_time metrics) \<and>
         i < length (decompression_time metrics) \<and> i < length (memory_usage metrics) \<and>
         i < length (compression_levels metrics)
      then Inr \<lparr>row_algorithm = algorithm,
                row_level = compression_levels metrics ! i,
                row_ratio = compression_ratio metrics ! i,
                row_compressed_size = compressed_size metrics ! i,
                row_percent = 100 - compressed_percentage metrics ! i,
                row_compression_time = compression_time metrics ! i,
                row_decompression_time = decompression_time metrics ! i,
                row_memory = memory_usage metrics ! i\<rparr>
      else Inl IndexError)"

fun detail_rows_from :: "string \<Rightarrow> series \<Rightarrow> nat list \<Rightarrow> py_error + detail_row list" where
  "detail_rows_from algorithm metrics [] = Inr []"
| "detail_rows_from algorithm metrics (i # rest) =
     (case detail_row_at algorithm metrics i of
        Inl e \<Rightarrow> Inl e
      | Inr row \<Rightarrow>
          (case detail_rows_from algorithm metrics rest of
             Inl e \<Rightarrow> Inl e
           | Inr rows \<Rightarrow> Inr (row # rows)))"

definition detail_rows :: "string \<Rightarrow> series \<Rightarrow> py_error + detail_row list" where
  "detail_rows algorithm metrics =
     detail_rows_from algorithm metrics [0..<length (compression_levels metrics)]"

section \<open>Best values\<close>

text \<open>\<^verbatim>\<open>min\<close> of a sequence: \<^verbatim>\<open>ValueError\<close> when it is empty.\<close>

definition min_py :: "real list \<Rightarrow> py_error + real" where
  "min_py xs = (case xs of [] \<Rightarrow> Inl ValueError | x # rest \<Rightarrow> Inr (fold min rest x))"

text \<open>
  \<^verbatim>\<open>generate_summary_table\<close>:
  \<^verbatim>\<open>min(min(alg[key]) for alg in algorithms.values() if min(alg[key]) > 0)\<close>.
  The generator yields the minimum of each series whose minimum is positive.
\<close>

fun positive_minima :: "real list list \<Rightarrow> py_error + real list" where
  "positive_minima [] = Inr []"
| "positive_minima (ts # rest) =
     (case min_py ts of
        Inl e \<Rightarrow> Inl e
      | Inr m \<Rightarrow>
          (case positive_minima rest of
             Inl e \<Rightarrow> Inl e
           | Inr ms \<Rightarrow> Inr (if m > 0 then m # ms else ms)))"

definition best_time :: "real list list \<Rightarrow> py_error + real" where
  "best_time tss =
     (case positive_minima tss of
        Inl e \<Rightarrow> Inl e
      | Inr ms \<Rightarrow> min_py ms)"

definition best_comp_time :: "algorithm_results \<Rightarrow> py_error + real" where
  "best_comp_time algorithms = best_time (map (\<lambda>(a, alg). compression_time alg) algorithms)"

definition best_decomp_time :: "algorithm_results \<Rightarrow> py_error + real" where
  "best_decomp_time algorithms = best_time (map (\<lambda>(a, alg). decompression_time alg) algorithms)"


text \<open>
  \<^verbatim>\<open>create_html_summary\<close> of \<^verbatim>\<open>visualize_json.py\<close>, first pass, one metric:
  \<^verbatim>\<open>best = min(best, min(times) if times else float('inf'))\<close> from
  \<^verbatim>\<open>float('inf')\<close>, which is \<open>None\<close> here.
\<close>

fun best_time_j :: "real option \<Rightarrow> real list list \<Rightarrow> real option" where
  "best_time_j best [] = best"
| "best_time_j best (ts # rest) =
     best_time_j (case ts of
                    [] \<Rightarrow> best
                  | t # r \<Rightarrow> (case best of None \<Rightarrow> Some (fold min r t)
                                          | Some b \<Rightarrow> Some (min b (fold min r t))))
                 rest"

section \<open>Example documents\<close>

text \<open>
  The two level records of the end-to-end scenario of the specification (file
  \<^verbatim>\<open>fileA\<close>, algorithm \<^verbatim>\<open>zstd\<close>, levels 1 and 3).
\<close>

definition level1_metrics :: level_metrics where
  "level1_metrics =
     \<lparr>compression = \<lparr>originalSize = 1000, compressedSize = 600, compressionRatio = 1.67,
                      compressedPercentage = ''60.0'', real_c = Some ''0:01'', max_c = 500\<rparr>,
      decompression = \<lparr>real_d = Some ''0:00.1'', max_d = 100\<rparr>\<rparr>"

definition level3_metrics :: level_metrics where
  "level3_metrics =
     \<lparr>compression = \<lparr>originalSize = 1000, compressedSize = 400, compressionRatio = 2.5,
                      compressedPercentage = ''40.0'', real_c = Some ''0:02'', max_c = 600\<rparr>,
      decompression = \<lparr>real_d = Some ''0:00.2'', max_d = 120\<rparr>\<rparr>"

text \<open>Level 3 listed before level 1.\<close>

definition scenario_document :: json_data where
  "scenario_document =
     [[(''fileA'', [(''zstd'', [(''3'', level3_metrics), (''1'', level1_metrics)])])]]"


text \<open>The file listed twice, each time with one record at level 1.\<close>

definition repeated_document :: json_data where
  "repeated_document =
     [[(''fileA'', [(''zstd'', [(''1'', level1_metrics)])])],
      [(''fileA'', [(''zstd'', [(''1'', level3_metrics)])])]]"

text \<open>A decimal level identifier.\<close>

definition decimal_document :: json_data where
  "decimal_document = [[(''fileA'', [(''zstd'', [(''1.5'', level1_metrics)])])]]"

definition series_of_times :: "real list \<Rightarrow> series" where
  "series_of_times ts = new_series\<lparr>compression_time := ts, decompression_time := ts\<rparr>"

section \<open>Evaluation of the concrete builtins\<close>

lemmas literal_defs = std_def alt_def float_literal_def int_literal_def strip_sign_def
  unsigned_float_literal_def nat_literal_def digit_of_def

lemma split_on_not_Nil: "split_on sep s \<noteq> []"
  by (induction s) (auto split: list.splits)

section \<open>The duration parser\<close>

text \<open>
  C4, as stated, fails: a string without a colon splits into one part, and
  \<^verbatim>\<open>parse_time\<close> has no branch for one part. \<^verbatim>\<open>parse_time("5")\<close> is
  \<open>0.0\<close>, not \<open>5.0\<close>.
\<close>

theorem parse_time_counterexample:
  "parse_time std (Some ''5'') = Inr 0 \<and> parse_time_reference std (Some ''5'') = Inr 5"
  by (simp add: parse_time_def parse_time_reference_def literal_defs)

text \<open>
  C4 (amended): \<^verbatim>\<open>parse_time\<close> returns \<open>0.0\<close> on \<^verbatim>\<open>None\<close> and on the empty
  string; it agrees with the reference definition on every string that does not split
  into exactly one part (two parts give \<open>60 * MM + SS\<close>, three parts give
  \<open>3600 * HH + 60 * MM + SS\<close>, four or more give \<open>0.0\<close>, a part that
  \<^verbatim>\<open>float\<close> rejects raises \<^verbatim>\<open>ValueError\<close> in both); a non-empty string of
  exactly one part gives \<open>0.0\<close>. So \<^verbatim>\<open>"0:00"\<close> gives \<open>0.0\<close>, \<^verbatim>\<open>"1:02"\<close> gives
  \<open>62.0\<close> and \<^verbatim>\<open>"1:02:03"\<close> gives \<open>3723.0\<close>.
\<close>

theorem parse_time_parts:
  "parse_time B None = Inr 0 \<and>
   parse_time B (Some []) = Inr 0 \<and>
   (length (split_on CHR '':'' s) \<noteq> 1 \<longrightarrow>
      parse_time B (Some s) = parse_time_reference B (Some s)) \<and>
   (s \<noteq> [] \<and> length (split_on CHR '':'' s) = 1 \<longrightarrow> parse_time B (Some s) = Inr 0) \<and>
   parse_time std (Some ''0:00'') = Inr 0 \<and>
   parse_time std (Some ''1:02'') = Inr 62 \<and>
   parse_time std (Some ''1:02:03'') = Inr 3723"
proof -
  have none: "parse_time B None = Inr 0" and empty: "parse_time B (Some []) = Inr 0"
    by (simp_all add: parse_time_def)
  have agree: "parse_time B (Some s) = parse_time_reference B (Some s)"
    if "length (split_on CHR '':'' s) \<noteq> 1"
    using that
    by (auto simp: parse_time_def parse_time_reference_def algebra_simps
             split: list.splits option.splits)
  have one: "parse_time B (Some s) = Inr 0"
    if "s \<noteq> []" "length (split_on CHR '':'' s) = 1"
    using that by (auto simp: parse_time_def split: list.splits)
  have ex: "parse_time std (Some ''0:00'') = Inr 0"
    "parse_time std (Some ''1:02'') = Inr 62"
    "parse_time std (Some ''1:02:03'') = Inr 3723"
    by (simp_all add: parse_time_def literal_defs)
  from none empty agree one ex show ?thesis by blast
qed

theorem parse_time_parts_witness:
  "length (split_on CHR '':'' ''1:02.5'') \<noteq> 1 \<and>
   parse_time std (Some ''1:02.5'') = parse_time_reference std (Some ''1:02.5'') \<and>
   parse_time std (Some ''1:02.5'') = Inr 62.5 \<and>
   ''7'' \<noteq> [] \<and> length (split_on CHR '':'' ''7'') = 1 \<and> parse_time std (Some ''7'') = Inr 0"
  using parse_time_parts [of std "''1:02.5''"] parse_time_parts [of std "''7''"]
  by (simp add: parse_time_def literal_defs)


section \<open>Derived values\<close>

lemma efficiency_list_eq:
  "\<forall>t\<in>set (map snd (zip rs ts)). t + 0.001 \<noteq> 0 \<Longrightarrow>
   efficiency_list rs ts = Inr (map (\<lambda>(ratio, time). ratio / (time + 0.001)) (zip rs ts))"
  by (induction rs ts rule: efficiency_list.induct) (simp_all add: efficiency_of_def)

text \<open>
  C7: the efficiency of every record is \<open>compression_ratio / (compression_time + 0.001)\<close>,
  the constant being exactly \<open>0.001\<close> (stated for every series in which no time makes
  the denominator zero, that is, no time equals \<open>-0.001\<close>); for a ratio of \<open>4.0\<close> and a
  time of \<open>0.0\<close> the efficiency is \<open>4000.0\<close> and no division by zero is raised.
\<close>

theorem efficiency_formula:
  "((\<forall>t\<in>set (compression_time metrics). t + 0.001 \<noteq> 0) \<longrightarrow>
      plot_compression_efficiency metrics =
        Inr (map (\<lambda>(ratio, time). ratio / (time + 0.001))
                 (zip (compression_ratio metrics) (compression_time metrics)))) \<and>
   efficiency_of 4 0 = Inr 4000"
proof -
  have "efficiency_of 4 0 = Inr 4000"
    by (simp add: efficiency_of_def)
  moreover have "plot_compression_efficiency metrics =
        Inr (map (\<lambda>(ratio, time). ratio / (time + 0.001))
                 (zip (compression_ratio metrics) (compression_time metrics)))"
    if h: "\<forall>t\<in>set (compression_time metrics). t + 0.001 \<noteq> 0"
  proof -
    have "\<forall>t\<in>set (map snd (zip (compression_ratio metrics) (compression_time metrics))). t + 0.001 \<noteq> 0"
      using h by (auto dest: set_zip_rightD)
    then show ?thesis
      unfolding plot_compression_efficiency_def by (rule efficiency_list_eq)
  qed
  ultimately show ?thesis by blast
qed

theorem efficiency_formula_witness:
  "(0::real) + 0.001 \<noteq> 0 \<and> (2::real) + 0.001 \<noteq> 0 \<and>
   plot_compression_efficiency (new_series\<lparr>compression_ratio := [4, 2.5], compression_time := [0, 2]\<rparr>)
     = Inr [4000, 2500 / 2001]"
  using efficiency_formula [of "new_series\<lparr>compression_ratio := [4, 2.5], compression_time := [0, 2]\<rparr>"]
  by (simp add: new_series_def)

lemma detail_rows_from_ok:
  "same_lengths metrics \<Longrightarrow> \<forall>i\<in>set is. i < length (compression_levels metrics) \<Longrightarrow>
   \<exists>rows. detail_rows_from algorithm metrics is = Inr rows \<and> length rows = length is \<and>
     (\<forall>j<length is. row_percent (rows ! j) = 100 - compressed_percentage metrics ! (is ! j))"
proof (induction "is")
  case Nil
  then show ?case by simp
next
  case (Cons i rest)
  then obtain rows where rows: "detail_rows_from algorithm metrics rest = Inr rows"
      "length rows = length rest"
      "\<forall>j<length rest. row_percent (rows ! j) = 100 - compressed_percentage metrics ! (rest ! j)"
    by auto
  from Cons.prems obtain row where row: "detail_row_at algorithm metrics i = Inr row"
      "row_percent row = 100 - compressed_percentage metrics ! i"
    by (auto simp: detail_row_at_def same_lengths_def)
  have "\<forall>j<length (i # rest). row_percent ((row # rows) ! j) = 100 - compressed_percentage metrics ! ((i # rest) ! j)"
    using rows(3) row(2) by (auto simp: nth_Cons split: nat.splits)
  with rows row show ?case by simp
qed

text \<open>
  C9: in the detailed table every row shows \<open>100 - compressed_percentage\<close> of its
  record; for a \<^verbatim>\<open>compressed_percentage\<close> of \<open>30.0\<close> the value is \<open>70.0\<close>.
\<close>

theorem percent_saved_complement:
  "(same_lengths metrics \<longrightarrow>
      (\<exists>rows. detail_rows algorithm metrics = Inr rows \<and>
              length rows = length (compression_levels metrics) \<and>
              (\<forall>i<length rows. row_percent (rows ! i) = 100 - compressed_percentage metrics ! i))) \<and>
   map_sum id (map row_percent)
     (detail_rows ''zstd''
        \<lparr>compression_levels = [LInt 1], compression_ratio = [3], compressed_percentage = [30],
         compression_time = [1], decompression_time = [1], original_size = Some 10,
         compressed_size = [3], memory_usage = [5]\<rparr>) = Inr [70]"
proof -
  have "map_sum id (map row_percent)
     (detail_rows ''zstd''
        \<lparr>compression_levels = [LInt 1], compression_ratio = [3], compressed_percentage = [30],
         compression_time = [1], decompression_time = [1], original_size = Some 10,
         compressed_size = [3], memory_usage = [5]\<rparr>) = Inr [70]"
    by (simp add: detail_rows_def detail_row_at_def)
  moreover have "\<exists>rows. detail_rows algorithm metrics = Inr rows \<and>
              length rows = length (compression_levels metrics) \<and>
              (\<forall>i<length rows. row_percent (rows ! i) = 100 - compressed_percentage metrics ! i)"
    if "same_lengths metrics"
    using detail_rows_from_ok [OF that, of "[0..<length (compression_levels metrics)]" algorithm]
    by (auto simp: detail_rows_def)
  ultimately show ?thesis by blast
qed

theorem percent_saved_complement_witness:
  "same_lengths (new_series\<lparr>compression_levels := [LInt 1, LInt 3], compression_ratio := [1.67, 2.5],
       compressed_percentage := [60, 40], compression_time := [1, 2], decompression_time := [0.1, 0.2],
       compressed_size := [600, 400], memory_usage := [500, 600]\<rparr>) \<and>
   map_sum id (map row_percent) (detail_rows ''zstd'' (new_series\<lparr>compression_levels := [LInt 1, LInt 3], compression_ratio := [1.67, 2.5],
       compressed_percentage := [60, 40], compression_time := [1, 2], decompression_time := [0.1, 0.2],
       compressed_size := [600, 400], memory_usage := [500, 600]\<rparr>)) = Inr [40, 60]"
  using percent_saved_complement [of "new_series\<lparr>compression_levels := [LInt 1, LInt 3], compression_ratio := [1.67, 2.5],
       compressed_percentage := [60, 40], compression_time := [1, 2], decompression_time := [0.1, 0.2],
       compressed_size := [600, 400], memory_usage := [500, 600]\<rparr>" "''zstd''"]
  by (simp add: same_lengths_def new_series_def detail_rows_def detail_row_at_def upt_rec)

lemma min_py_eq: "min_py xs = (if xs = [] then Inl ValueError else Inr (Min (set xs)))"
  by (cases xs) (simp_all add: min_py_def Min.set_eq_fold [symmetric])

lemma positive_minima_eq:
  "positive_minima tss =
     (if \<forall>ts\<in>set tss. ts \<noteq> []
      then Inr (filter (\<lambda>m. 0 < m) (map (\<lambda>ts. Min (set ts)) tss))
      else Inl ValueError)"
proof (induction tss)
  case Nil
  show ?case by simp
next
  case (Cons ts tss)
  show ?case
  proof (cases "ts = []")
    case True
    then show ?thesis by (simp add: min_py_eq)
  next
    case False
    then show ?thesis
      by (cases "\<forall>ts\<in>set tss. ts \<noteq> []") (simp_all add: min_py_eq Cons.IH)
  qed
qed


lemma best_time_eq:
  "best_time tss =
     (if (\<forall>ts\<in>set tss. ts \<noteq> []) \<and> filter (\<lambda>m. 0 < m) (map (\<lambda>ts. Min (set ts)) tss) \<noteq> []
      then Inr (Min (set (filter (\<lambda>m. 0 < m) (map (\<lambda>ts. Min (set ts)) tss))))
      else Inl ValueError)"
  unfolding best_time_def positive_minima_eq min_py_eq
  by (cases "\<forall>ts\<in>set tss. ts \<noteq> []") simp_all

lemma best_time_props:
  assumes "best_time tss = Inr v"
  shows "0 < v"
    and "\<exists>ts\<in>set tss. ts \<noteq> [] \<and> v = Min (set ts)"
    and "\<forall>ts\<in>set tss. 0 < Min (set ts) \<longrightarrow> v \<le> Min (set ts)"
proof -
  define ms where "ms = filter (\<lambda>m. 0 < m) (map (\<lambda>ts. Min (set ts)) tss)"
  have bt: "best_time tss = (if (\<forall>ts\<in>set tss. ts \<noteq> []) \<and> ms \<noteq> [] then Inr (Min (set ms)) else Inl ValueError)"
    unfolding ms_def by (rule best_time_eq)
  from assms have ne: "\<forall>ts\<in>set tss. ts \<noteq> []" and ms: "ms \<noteq> []" and v: "v = Min (set ms)"
    unfolding bt by (simp_all split: if_splits)
  from ms have "set ms \<noteq> {}" by simp
  then have "Min (set ms) \<in> set ms" by (intro Min_in) simp_all
  with v have vin: "v \<in> set ms" by simp
  then show "0 < v" by (simp add: ms_def)
  from vin obtain ts where "ts \<in> set tss" "v = Min (set ts)"
    by (auto simp: ms_def)
  with ne show "\<exists>ts\<in>set tss. ts \<noteq> [] \<and> v = Min (set ts)" by blast
  show "\<forall>ts\<in>set tss. 0 < Min (set ts) \<longrightarrow> v \<le> Min (set ts)"
  proof (intro ballI impI)
    fix ts assume "ts \<in> set tss" "0 < Min (set ts)"
    then have "Min (set ts) \<in> set ms" by (simp add: ms_def)
    then show "v \<le> Min (set ts)" unfolding v by (intro Min_le) simp_all
  qed
qed




lemma no_positive_sample_raises:
  assumes "\<forall>ts\<in>set tss. \<forall>t\<in>set ts. t \<le> 0"
  shows "best_time tss = Inl ValueError"
proof (cases "best_time tss")
  case (Inl e)
  then show ?thesis unfolding best_time_eq by (simp split: if_splits)
next
  case (Inr v)
  from best_time_props [OF Inr] obtain ts where ts: "ts \<in> set tss" "ts \<noteq> []" "v = Min (set ts)" "0 < v"
    by blast
  from ts(2) have "Min (set ts) \<in> set ts" by (intro Min_in) simp_all
  with ts(1) assms have "Min (set ts) \<le> 0" by blast
  with ts(3,4) show ?thesis by simp
qed


section \<open>Level keys\<close>

text \<open>
  \<^verbatim>\<open>extract_data\<close> of \<^verbatim>\<open>analyze_compression.py\<close>: the key is the integer when
  \<^verbatim>\<open>int\<close> accepts the identifier, else the float when \<^verbatim>\<open>float\<close> accepts it, else
  \<^verbatim>\<open>ValueError\<close> is raised; no key is made up.
\<close>

lemma level_key_Inr:
  "level_key B s = Inr k \<longleftrightarrow>
     (\<exists>i. py_int B s = Some i \<and> k = LInt i) \<or>
     (py_int B s = None \<and> (\<exists>x. py_float B s = Some x \<and> k = LFloat x))"
  by (auto simp: level_key_def split: option.splits)

lemma level_key_Inl:
  "level_key B s = Inl e \<longleftrightarrow> py_int B s = None \<and> py_float B s = None \<and> e = ValueError"
  by (auto simp: level_key_def split: option.splits)

text \<open>
  C6 on the other scripts: \<^verbatim>\<open>visualize.py\<close> and \<^verbatim>\<open>visualize_json.py\<close> call
  \<^verbatim>\<open>int(level)\<close> alone, so the identifier \<^verbatim>\<open>"1.5"\<close>, which
  \<^verbatim>\<open>analyze_compression.py\<close> reads as the key \<open>1.5\<close>, raises \<^verbatim>\<open>ValueError\<close>
  there without a floating-point parse being tried.
\<close>

theorem int_only_level_rejects_decimal:
  "level_key std ''1.5'' = Inr (LFloat 1.5) \<and>
   level_key_int_only std ''1.5'' = Inl ValueError \<and>
   process_data std decimal_document = Inl ValueError"
  by (simp add: level_key_def level_key_int_only_def literal_defs process_data_def
      process_test_def process_algorithm_def append_level_j_def decimal_document_def
      level1_metrics_def)

section \<open>Best values\<close>

text \<open>
  The first pass of \<^verbatim>\<open>create_html_summary\<close> in \<^verbatim>\<open>visualize_json.py\<close> has no
  test for zero: with durations \<open>[0.0, 0.0]\<close> and \<open>[0.5, 0.3]\<close> its best time is \<open>0.0\<close>.
\<close>

lemma best_time_j_example: "best_time_j None [[0, 0], [0.5, 0.3]] = Some 0"
  by simp


text \<open>
  C3: when every algorithm of a file has only zero durations, the generator of
  \<^verbatim>\<open>generate_summary_table\<close> yields nothing and the outer \<^verbatim>\<open>min\<close> raises
  \<^verbatim>\<open>ValueError\<close>: the computation does not complete.
\<close>

theorem all_zero_durations_raise:
  "best_comp_time [(''A'', series_of_times [0, 0]), (''B'', series_of_times [0])] = Inl ValueError \<and>
   best_decomp_time [(''A'', series_of_times [0, 0]), (''B'', series_of_times [0])] = Inl ValueError"
  by (simp add: best_comp_time_def best_decomp_time_def best_time_def min_py_def
      series_of_times_def new_series_def)





section \<open>Sorting a series\<close>

lemma argsort_ok_set: "argsort_ok B \<Longrightarrow> set (np_argsort B ks) = {0..<length ks}"
  unfolding argsort_ok_def by (metis mset_eq_setD set_upt)

lemma argsort_ok_length: "argsort_ok B \<Longrightarrow> length (np_argsort B ks) = length ks"
  unfolding argsort_ok_def by (metis length_upt mset_eq_length minus_nat.diff_0)


lemma take_indices_Inr:
  "take_indices xs idx = Inr ys \<longleftrightarrow> (\<forall>i\<in>set idx. i < length xs) \<and> ys = map (\<lambda>i. xs ! i) idx"
  by (auto simp: take_indices_def list_all_iff)

lemma take_indices_Inl:
  "take_indices xs idx = Inl e \<longleftrightarrow> \<not> (\<forall>i\<in>set idx. i < length xs) \<and> e = IndexError"
  by (auto simp: take_indices_def list_all_iff)

lemma take_indices_argsort:
  "argsort_ok B \<Longrightarrow> length xs = length ks \<Longrightarrow>
   take_indices xs (np_argsort B ks) = Inr (map (\<lambda>i. xs ! i) (np_argsort B ks))"
  by (simp add: take_indices_Inr argsort_ok_set)

text \<open>Both concrete argsorts keep the promise of \<^verbatim>\<open>numpy.argsort\<close>.\<close>

lemma stable_argsort_ok_aux:
  "mset (stable_argsort ks) = mset [0..<length ks] \<and>
   sorted (map (\<lambda>i. ks ! i) (stable_argsort ks))"
  by (simp add: stable_argsort_def)

lemma std_argsort_ok: "argsort_ok std"
  by (simp add: argsort_ok_def std_def stable_argsort_def )



lemma sort_series_Inr:
  assumes "sort_series B s = Inr s'"
  defines "idx \<equiv> np_argsort B (map level_value (compression_levels s))"
  shows "compression_levels s' = map (\<lambda>i. compression_levels s ! i) idx"
    and "compression_ratio s' = map (\<lambda>i. compression_ratio s ! i) idx"
    and "compressed_percentage s' = map (\<lambda>i. compressed_percentage s ! i) idx"
    and "compression_time s' = map (\<lambda>i. compression_time s ! i) idx"
    and "decompression_time s' = map (\<lambda>i. decompression_time s ! i) idx"
    and "compressed_size s' = map (\<lambda>i. compressed_size s ! i) idx"
    and "memory_usage s' = map (\<lambda>i. memory_usage s ! i) idx"
    and "original_size s' = original_size s"
    and "\<forall>i\<in>set idx. i < length (compression_levels s)"
  using assms(1) unfolding idx_def sort_series_def Let_def
  by (auto simp: take_indices_Inr split: sum.splits)


lemma sort_series_lengths:
  assumes "argsort_ok B" "sort_series B s = Inr s'"
  shows "same_lengths s'" and "length (compression_levels s') = length (compression_levels s)"
  using sort_series_Inr [OF assms(2)] argsort_ok_length [OF assms(1)]
  by (simp_all add: same_lengths_def)

lemma sort_series_total:
  assumes "argsort_ok B" "same_lengths s"
  shows "\<exists>s'. sort_series B s = Inr s'"
  using assms unfolding sort_series_def Let_def same_lengths_def
  by (simp add: take_indices_argsort)

lemma sort_algorithms_lookup:
  "sort_algorithms B res = Inr res' \<Longrightarrow> map_of res' a = Some s' \<Longrightarrow>
   \<exists>s. map_of res a = Some s \<and> sort_series B s = Inr s'"
proof (induction res arbitrary: res')
  case Nil
  then show ?case by simp
next
  case (Cons p res)
  obtain b s where p: "p = (b, s)" by (cases p)
  from Cons.prems(1) p obtain s1 rest' where
    s1: "sort_series B s = Inr s1" and rest: "sort_algorithms B res = Inr rest'"
    and res': "res' = (b, s1) # rest'"
    by (auto split: sum.splits)
  show ?case
  proof (cases "a = b")
    case True
    with Cons.prems(2) res' s1 p show ?thesis by simp
  next
    case False
    with Cons.prems(2) res' have "map_of rest' a = Some s'" by simp
    from Cons.IH [OF rest this] False p show ?thesis by simp
  qed
qed

lemma sort_data_lookup_file:
  "sort_data_by_level B rs = Inr rs' \<Longrightarrow> map_of rs' f = Some res' \<Longrightarrow>
   \<exists>res. map_of rs f = Some res \<and> sort_algorithms B res = Inr res'"
proof (induction rs arbitrary: rs')
  case Nil
  then show ?case by simp
next
  case (Cons p rs)
  obtain g res where p: "p = (g, res)" by (cases p)
  from Cons.prems(1) p obtain r1 rest' where
    r1: "sort_algorithms B res = Inr r1" and rest: "sort_data_by_level B rs = Inr rest'"
    and rs': "rs' = (g, r1) # rest'"
    by (auto split: sum.splits)
  show ?case
  proof (cases "f = g")
    case True
    with Cons.prems(2) rs' r1 p show ?thesis by simp
  next
    case False
    with Cons.prems(2) rs' have "map_of rest' f = Some res'" by simp
    from Cons.IH [OF rest this] False p show ?thesis by simp
  qed
qed

lemma sort_data_lookup:
  assumes "sort_data_by_level B rs = Inr rs'" "lookup_series rs' f a = Some s'"
  shows "\<exists>s. lookup_series rs f a = Some s \<and> sort_series B s = Inr s'"
proof -
  from assms(2) obtain res' where res': "map_of rs' f = Some res'" "map_of res' a = Some s'"
    by (auto simp: lookup_series_def split: option.splits)
  from sort_data_lookup_file [OF assms(1) res'(1)] obtain res where
    res: "map_of rs f = Some res" "sort_algorithms B res = Inr res'" by blast
  from sort_algorithms_lookup [OF res(2) res'(2)] obtain s where
    "map_of res a = Some s" "sort_series B s = Inr s'" by blast
  with res(1) show ?thesis by (auto simp: lookup_series_def)
qed

section \<open>What the loops of extract\_data maintain\<close>

lemma append_level_Inr:
  assumes "append_level B s lm = Inr s'"
  shows "length (compression_levels s') = Suc (length (compression_levels s))"
    and "same_lengths s \<Longrightarrow> same_lengths s'"
    and "original_size s' = original_size s"
  using assms
  by (auto simp: append_level_def Let_def same_lengths_def split: prod.splits sum.splits option.splits)

lemma process_levels_Inr:
  "process_levels B s ls = Inr s' \<Longrightarrow>
   length (compression_levels s') = length (compression_levels s) + length ls \<and>
   (same_lengths s \<longrightarrow> same_lengths s') \<and>
   original_size s' = original_size s"
proof (induction ls arbitrary: s)
  case Nil
  then show ?case by simp
next
  case (Cons lm ls)
  from Cons.prems obtain s1 where s1: "append_level B s lm = Inr s1"
    and rest: "process_levels B s1 ls = Inr s'"
    by (auto split: sum.splits)
  from Cons.IH [OF rest] append_level_Inr [OF s1] show ?case by simp
qed

lemma same_lengths_new_series: "same_lengths new_series"
  by (simp add: same_lengths_def new_series_def)

lemma algorithm_levels_Cons:
  "algorithm_levels ((a, ls) # rest) b = (if a = b then ls else []) @ algorithm_levels rest b"
  by (simp add: algorithm_levels_def)

lemma file_levels_Cons:
  "file_levels ((f, algs) # rest) g a =
     (if f = g then algorithm_levels algs a else []) @ file_levels rest g a"
  by (simp add: file_levels_def)

lemma file_levels_append:
  "file_levels (xs @ ys) g a = file_levels xs g a @ file_levels ys g a"
  by (simp add: file_levels_def)

lemma algorithms_hold_cong:
  assumes "algorithms_hold res E" "\<And>a. E a = E' a"
  shows "algorithms_hold res E'"
proof -
  from assms(2) have "E = E'" by (intro ext)
  with assms(1) show ?thesis by simp
qed

lemma results_hold_cong:
  assumes "results_hold rs E" "\<And>f a. E f a = E' f a"
  shows "results_hold rs E'"
proof -
  from assms(2) have "E = E'" by (intro ext)
  with assms(1) show ?thesis by simp
qed

lemma algorithms_holdD:
  assumes "algorithms_hold res E"
  shows "map_of res a = None \<Longrightarrow> E a = []"
    and "map_of res a = Some s \<Longrightarrow> series_records s (E a)"
proof -
  from assms have h: "case map_of res a of None \<Rightarrow> E a = [] | Some s \<Rightarrow> series_records s (E a)"
    unfolding algorithms_hold_def by (rule spec)
  show "map_of res a = None \<Longrightarrow> E a = []" using h by simp
  show "map_of res a = Some s \<Longrightarrow> series_records s (E a)" using h by simp
qed

lemma results_holdD:
  assumes "results_hold rs E"
  shows "map_of rs f = None \<Longrightarrow> E f a = []"
    and "map_of rs f = Some res \<Longrightarrow> algorithms_hold res (E f)"
proof -
  from assms have h: "case map_of rs f of None \<Rightarrow> (\<forall>a. E f a = []) | Some res \<Rightarrow> algorithms_hold res (E f)"
    unfolding results_hold_def by (rule spec)
  show "map_of rs f = None \<Longrightarrow> E f a = []" using h by simp
  show "map_of rs f = Some res \<Longrightarrow> algorithms_hold res (E f)" using h by simp
qed

lemma extract_algorithm_hold:
  assumes ex: "extract_algorithm B res (alg, ls) = Inr res'"
    and inv: "algorithms_hold res E"
  shows "algorithms_hold res' (\<lambda>a. E a @ (if alg = a then ls else []))"
proof -
  define s0 where "s0 = (case map_of res alg of None \<Rightarrow> new_series | Some s \<Rightarrow> s)"
  define first where "first = (if original_size s0 = None
          then (case ls of [] \<Rightarrow> Inl IndexError
                | (first_level, m) # _ \<Rightarrow> Inr (s0\<lparr>original_size := Some (originalSize (compression m))\<rparr>))
          else Inr s0)"
  have unf: "extract_algorithm B res (alg, ls) =
      (case first of Inl e \<Rightarrow> Inl e
       | Inr s1 \<Rightarrow> (case process_levels B s1 ls of Inl e \<Rightarrow> Inl e
                     | Inr s2 \<Rightarrow> Inr (AList.update alg s2 res)))"
    unfolding extract_algorithm_def first_def s0_def Let_def prod.case by (rule refl)
  from ex obtain s1 where s1: "first = Inr s1"
    unfolding unf by (cases first) simp_all
  from ex s1 obtain s2 where s2: "process_levels B s1 ls = Inr s2"
    and res': "res' = AList.update alg s2 res"
    unfolding unf by (cases "process_levels B s1 ls") auto
  note s1 = s1 [unfolded first_def]
  note p = process_levels_Inr [OF s2]
  have rec: "series_records s2 (E alg @ ls)"
  proof (cases "map_of res alg")
    case None
    then have E: "E alg = []" using inv by (rule algorithms_holdD(1) [rotated])
    from None have s0: "s0 = new_series" by (simp add: s0_def)
    from s1 s0 obtain k m rest where ls: "ls = (k, m) # rest"
      and s1': "s1 = new_series\<lparr>original_size := Some (originalSize (compression m))\<rparr>"
      by (auto simp: new_series_def split: list.splits)
    have "same_lengths s1" "length (compression_levels s1) = 0"
      by (simp_all add: s1' same_lengths_def new_series_def)
    with p E ls s1' show ?thesis
      by (simp add: series_records_def)
  next
    case (Some s)
    then have r: "series_records s (E alg)"
      using inv by (rule algorithms_holdD(2) [rotated])
    from Some have s0: "s0 = s" by (simp add: s0_def)
    from r have "original_size s \<noteq> None"
      by (auto simp: series_records_def split: list.splits)
    with s1 s0 have "s1 = s" by simp
    with p r show ?thesis
      by (auto simp: series_records_def split: list.splits)
  qed
  show ?thesis
    unfolding algorithms_hold_def
  proof
    fix a
    show "case map_of res' a of None \<Rightarrow> E a @ (if alg = a then ls else []) = []
          | Some s \<Rightarrow> series_records s (E a @ (if alg = a then ls else []))"
    proof (cases "a = alg")
      case True
      then show ?thesis using rec by (simp add: res' update_conv')
    next
      case False
      then have "map_of res' a = map_of res a" by (simp add: res' update_conv')
      moreover from inv have "case map_of res a of None \<Rightarrow> E a = [] | Some s \<Rightarrow> series_records s (E a)"
        unfolding algorithms_hold_def by (rule spec)
      ultimately show ?thesis using False by (simp split: option.splits)
    qed
  qed
qed

lemma extract_algorithms_hold:
  "extract_algorithms B res algs = Inr res' \<Longrightarrow> algorithms_hold res E \<Longrightarrow>
   algorithms_hold res' (\<lambda>a. E a @ algorithm_levels algs a)"
proof (induction algs arbitrary: res E)
  case Nil
  then show ?case by (simp add: algorithm_levels_def)
next
  case (Cons al algs)
  obtain alg ls where al: "al = (alg, ls)" by (cases al)
  from Cons.prems(1) al obtain res1 where
    r1: "extract_algorithm B res (alg, ls) = Inr res1"
    and rest: "extract_algorithms B res1 algs = Inr res'"
    by (auto split: sum.splits)
  from extract_algorithm_hold [OF r1 Cons.prems(2)]
  have "algorithms_hold res1 (\<lambda>a. E a @ (if alg = a then ls else []))" .
  from Cons.IH [OF rest this]
  show ?case
    by (rule algorithms_hold_cong) (simp add: al algorithm_levels_Cons)
qed

lemma extract_file_hold:
  assumes ex: "extract_file B rs (f0, algs) = Inr rs'"
    and inv: "results_hold rs E"
  shows "results_hold rs' (\<lambda>f a. E f a @ (if f0 = f then algorithm_levels algs a else []))"
proof -
  define r0 where "r0 = (case map_of rs f0 of None \<Rightarrow> [] | Some r \<Rightarrow> r)"
  from ex obtain r1 where r1: "extract_algorithms B r0 algs = Inr r1"
    and rs': "rs' = AList.update f0 r1 rs"
    by (auto simp: extract_file_def r0_def Let_def split: sum.splits)
  have "algorithms_hold r0 (E f0)"
  proof (cases "map_of rs f0")
    case None
    with inv have "\<forall>a. E f0 a = []"
      by (auto dest: results_holdD(1))
    with None show ?thesis by (simp add: r0_def algorithms_hold_def)
  next
    case (Some r)
    with inv show ?thesis
      by (auto simp: r0_def dest: results_holdD(2))
  qed
  from extract_algorithms_hold [OF r1 this]
  have h1: "algorithms_hold r1 (\<lambda>a. E f0 a @ algorithm_levels algs a)" .
  show ?thesis
    unfolding results_hold_def
  proof
    fix f
    show "case map_of rs' f of
            None \<Rightarrow> \<forall>a. E f a @ (if f0 = f then algorithm_levels algs a else []) = []
          | Some res \<Rightarrow> algorithms_hold res (\<lambda>a. E f a @ (if f0 = f then algorithm_levels algs a else []))"
    proof (cases "f = f0")
      case True
      then show ?thesis using h1 by (simp add: rs' update_conv')
    next
      case False
      then have "map_of rs' f = map_of rs f" by (simp add: rs' update_conv')
      moreover from inv have "case map_of rs f of None \<Rightarrow> (\<forall>a. E f a = [])
          | Some res \<Rightarrow> algorithms_hold res (E f)"
        unfolding results_hold_def by (rule spec)
      ultimately show ?thesis using False by (simp split: option.splits)
    qed
  qed
qed

lemma extract_files_hold:
  "extract_files B rs fd = Inr rs' \<Longrightarrow> results_hold rs E \<Longrightarrow>
   results_hold rs' (\<lambda>f a. E f a @ file_levels fd f a)"
proof (induction fd arbitrary: rs E)
  case Nil
  then show ?case by (simp add: file_levels_def)
next
  case (Cons fa fd)
  obtain f0 algs where fa: "fa = (f0, algs)" by (cases fa)
  from Cons.prems(1) fa obtain rs1 where
    r1: "extract_file B rs (f0, algs) = Inr rs1"
    and rest: "extract_files B rs1 fd = Inr rs'"
    by (auto split: sum.splits)
  from extract_file_hold [OF r1 Cons.prems(2)]
  have "results_hold rs1 (\<lambda>f a. E f a @ (if f0 = f then algorithm_levels algs a else []))" .
  from Cons.IH [OF rest this]
  show ?case
    by (rule results_hold_cong) (simp add: fa file_levels_Cons)
qed

lemma extract_json_hold:
  "extract_json B rs json_data = Inr rs' \<Longrightarrow> results_hold rs E \<Longrightarrow>
   results_hold rs' (\<lambda>f a. E f a @ levels_encountered json_data f a)"
proof (induction json_data arbitrary: rs E)
  case Nil
  then show ?case by (simp add: levels_encountered_def file_levels_def)
next
  case (Cons fd json_data)
  from Cons.prems(1) obtain rs1 where
    r1: "extract_files B rs fd = Inr rs1"
    and rest: "extract_json B rs1 json_data = Inr rs'"
    by (auto split: sum.splits)
  from extract_files_hold [OF r1 Cons.prems(2)]
  have "results_hold rs1 (\<lambda>f a. E f a @ file_levels fd f a)" .
  from Cons.IH [OF rest this]
  show ?case
    by (rule results_hold_cong) (simp add: levels_encountered_def file_levels_append)
qed

lemma extract_json_records:
  assumes "extract_json B [] json_data = Inr rs" "lookup_series rs f a = Some s"
  shows "series_records s (levels_encountered json_data f a)"
proof -
  have "results_hold [] (\<lambda>f a. [])" by (simp add: results_hold_def)
  from extract_json_hold [OF assms(1) this]
  have "results_hold rs (levels_encountered json_data)" by simp
  moreover from assms(2) obtain res where "map_of rs f = Some res" "map_of res a = Some s"
    by (auto simp: lookup_series_def split: option.splits)
  ultimately show ?thesis
    by (blast dest: results_holdD(2) algorithms_holdD(2))
qed

section \<open>The normalized series\<close>

lemma extract_data_Inr:
  assumes "extract_data B json_data = Inr rs" "lookup_series rs f a = Some s"
  obtains rs0 s0 where "extract_json B [] json_data = Inr rs0"
    and "sort_data_by_level B rs0 = Inr rs"
    and "lookup_series rs0 f a = Some s0"
    and "sort_series B s0 = Inr s"
    and "series_records s0 (levels_encountered json_data f a)"
proof -
  from assms(1) obtain rs0 where rs0: "extract_json B [] json_data = Inr rs0"
    and srt: "sort_data_by_level B rs0 = Inr rs"
    by (auto simp: extract_data_def split: sum.splits)
  from sort_data_lookup [OF srt assms(2)] obtain s0 where
    s0: "lookup_series rs0 f a = Some s0" "sort_series B s0 = Inr s" by blast
  from extract_json_records [OF rs0 s0(1)] rs0 srt s0 that show ?thesis by blast
qed

lemmas eval_defs = extract_data_def extract_file_def extract_algorithm_def append_level_def
  level_key_def parse_time_def sort_series_def take_indices_def new_series_def
  std_def alt_def float_literal_def int_literal_def strip_sign_def
  unsigned_float_literal_def nat_literal_def digit_of_def stable_argsort_def
  reversing_argsort_def level1_metrics_def level3_metrics_def Let_def upt_rec

lemma scenario_result:
  "extract_data std scenario_document =
     Inr [(''fileA'',
           [(''zstd'',
             \<lparr>compression_levels = [LInt 1, LInt 3], compression_ratio = [1.67, 2.5],
              compressed_percentage = [60, 40], compression_time = [1, 2],
              decompression_time = [0.1, 0.2], original_size = Some 1000,
              compressed_size = [600, 400], memory_usage = [500, 600]\<rparr>)])]"
  by (simp add: eval_defs scenario_document_def)


lemma repeated_result_std:
  "extract_data std repeated_document =
     Inr [(''fileA'',
           [(''zstd'',
             \<lparr>compression_levels = [LInt 1, LInt 1], compression_ratio = [1.67, 2.5],
              compressed_percentage = [60, 40], compression_time = [1, 2],
              decompression_time = [0.1, 0.2], original_size = Some 1000,
              compressed_size = [600, 400], memory_usage = [500, 600]\<rparr>)])]"
  by (simp add: eval_defs repeated_document_def)






text \<open>
  C8, as stated, fails: a file listed twice with a record at level 1 each time gives a
  series of two records, and one distinct level key.
\<close>

theorem distinct_keys_counterexample:
  "extract_data std repeated_document =
     Inr [(''fileA'', [(''zstd'', \<lparr>compression_levels = [LInt 1, LInt 1], compression_ratio = [1.67, 2.5],
              compressed_percentage = [60, 40], compression_time = [1, 2],
              decompression_time = [0.1, 0.2], original_size = Some 1000,
              compressed_size = [600, 400], memory_usage = [500, 600]\<rparr>)])] \<and>
   length (compression_levels \<lparr>compression_levels = [LInt 1, LInt 1], compression_ratio = [1.67, 2.5],
              compressed_percentage = [60, 40], compression_time = [1, 2],
              decompression_time = [0.1, 0.2], original_size = Some 1000,
              compressed_size = [600, 400], memory_usage = [500, 600]\<rparr>) = 2 \<and>
   length (remdups (map (\<lambda>(level, m). level_key std level)
                        (levels_encountered repeated_document ''fileA'' ''zstd''))) = 1"
  using repeated_result_std
  by (simp add: levels_encountered_def file_levels_def algorithm_levels_def
      repeated_document_def level_key_def literal_defs)

text \<open>
  C8 (amended): in every series that \<^verbatim>\<open>extract_data\<close> returns, the seven per-level
  lists have one length, the number of level records met for that (file, algorithm) pair
  in the input, each record counted (no record is dropped, none is merged); that is the
  number of distinct level keys when the keys met are pairwise distinct.
\<close>

theorem series_lengths:
  assumes "argsort_ok B" "extract_data B json_data = Inr rs"
    "lookup_series rs filename algorithm = Some s"
  shows "same_lengths s \<and>
         length (compression_levels s) = length (levels_encountered json_data filename algorithm) \<and>
         (distinct (map (\<lambda>(level, m). level_key B level)
                        (levels_encountered json_data filename algorithm)) \<longrightarrow>
          length (compression_levels s) =
            length (remdups (map (\<lambda>(level, m). level_key B level)
                                 (levels_encountered json_data filename algorithm))))"
proof -
  from assms(2,3) obtain s0 where s0: "sort_series B s0 = Inr s"
    and r: "series_records s0 (levels_encountered json_data filename algorithm)"
    by (rule extract_data_Inr)
  from sort_series_lengths [OF assms(1) s0] r
  have "same_lengths s"
    and len: "length (compression_levels s) = length (levels_encountered json_data filename algorithm)"
    by (simp_all add: series_records_def)
  then show ?thesis by (simp add: distinct_remdups_id)
qed

theorem series_lengths_witness:
  "argsort_ok std \<and>
   extract_data std repeated_document = Inr [(''fileA'', [(''zstd'', \<lparr>compression_levels = [LInt 1, LInt 1], compression_ratio = [1.67, 2.5],
              compressed_percentage = [60, 40], compression_time = [1, 2],
              decompression_time = [0.1, 0.2], original_size = Some 1000,
              compressed_size = [600, 400], memory_usage = [500, 600]\<rparr>)])] \<and>
   lookup_series [(''fileA'', [(''zstd'', \<lparr>compression_levels = [LInt 1, LInt 1], compression_ratio = [1.67, 2.5],
              compressed_percentage = [60, 40], compression_time = [1, 2],
              decompression_time = [0.1, 0.2], original_size = Some 1000,
              compressed_size = [600, 400], memory_usage = [500, 600]\<rparr>)])] ''fileA'' ''zstd'' = Some \<lparr>compression_levels = [LInt 1, LInt 1], compression_ratio = [1.67, 2.5],
              compressed_percentage = [60, 40], compression_time = [1, 2],
              decompression_time = [0.1, 0.2], original_size = Some 1000,
              compressed_size = [600, 400], memory_usage = [500, 600]\<rparr> \<and>
   same_lengths \<lparr>compression_levels = [LInt 1, LInt 1], compression_ratio = [1.67, 2.5],
              compressed_percentage = [60, 40], compression_time = [1, 2],
              decompression_time = [0.1, 0.2], original_size = Some 1000,
              compressed_size = [600, 400], memory_usage = [500, 600]\<rparr> \<and>
   length (levels_encountered repeated_document ''fileA'' ''zstd'') = 2 \<and>
   length (compression_levels \<lparr>compression_levels = [LInt 1, LInt 1], compression_ratio = [1.67, 2.5],
              compressed_percentage = [60, 40], compression_time = [1, 2],
              decompression_time = [0.1, 0.2], original_size = Some 1000,
              compressed_size = [600, 400], memory_usage = [500, 600]\<rparr>) = 2"
  using series_lengths [OF std_argsort_ok repeated_result_std, of "''fileA''" "''zstd''" "\<lparr>compression_levels = [LInt 1, LInt 1], compression_ratio = [1.67, 2.5],
              compressed_percentage = [60, 40], compression_time = [1, 2],
              decompression_time = [0.1, 0.2], original_size = Some 1000,
              compressed_size = [600, 400], memory_usage = [500, 600]\<rparr>"]
    std_argsort_ok repeated_result_std
  by (simp add: lookup_series_def levels_encountered_def file_levels_def algorithm_levels_def
      repeated_document_def same_lengths_def)




section \<open>The two normalization routines side by side\<close>

text \<open>One level: both routines append the same values, or raise the same exception.\<close>

lemma as_series_j_new: "as_series_j (new_series\<lparr>original_size := x\<rparr>) = new_series_j\<lparr>original_size_j := x\<rparr>"
  by (simp add: as_series_j_def new_series_def new_series_j_def)

lemma append_level_sim:
  assumes "level_plain B (level, m)"
  shows "append_level_j B (as_series_j s) (level, m) = map_sum id as_series_j (append_level B s (level, m))"
  using assms
  by (auto simp: level_plain_def append_level_j_def append_level_def level_key_def
      level_key_int_only_def as_series_j_def Let_def split: sum.splits option.splits)

lemma append_level_int:
  assumes "level_plain B lm" "append_level B s lm = Inr s'" "int_levels s"
  shows "int_levels s'"
  using assms
  by (auto simp: level_plain_def append_level_def level_key_def int_levels_def Let_def
      split: sum.splits option.splits prod.splits)

lemma process_levels_sim:
  "list_all (level_plain B) ls \<Longrightarrow>
   process_levels_j B (as_series_j s) ls = map_sum id as_series_j (process_levels B s ls)"
proof (induction ls arbitrary: s)
  case Nil
  then show ?case by simp
next
  case (Cons lm ls)
  obtain level m where lm: "lm = (level, m)" by (cases lm)
  from Cons.prems lm have p: "level_plain B (level, m)" and rest: "list_all (level_plain B) ls"
    by simp_all
  show ?case
  proof (cases "append_level B s (level, m)")
    case (Inl e)
    with append_level_sim [OF p, of s] lm show ?thesis by simp
  next
    case (Inr s1)
    with append_level_sim [OF p, of s] lm Cons.IH [OF rest, of s1] show ?thesis by simp
  qed
qed

lemma process_levels_int:
  "list_all (level_plain B) ls \<Longrightarrow> process_levels B s ls = Inr s' \<Longrightarrow> int_levels s \<Longrightarrow>
   int_levels s'"
proof (induction ls arbitrary: s)
  case Nil
  then show ?case by simp
next
  case (Cons lm ls)
  from Cons.prems(2) obtain s1 where s1: "append_level B s lm = Inr s1"
    and rest: "process_levels B s1 ls = Inr s'"
    by (auto split: sum.splits)
  from Cons.prems(1) have "level_plain B lm" "list_all (level_plain B) ls" by simp_all
  with append_level_int [OF _ s1 Cons.prems(3)] Cons.IH [OF _ rest] show ?case by blast
qed


text \<open>A key that is not in a dict yet is inserted at the end.\<close>

lemma update_fresh: "k \<notin> fst ` set al \<Longrightarrow> AList.update k v al = al @ [(k, v)]"
  by (induction al) auto

lemma map_of_fresh: "k \<notin> fst ` set al \<Longrightarrow> map_of al k = None"
  by (simp add: map_of_eq_None_iff)

lemma levels_value_map:
  "list_all (\<lambda>l. level_int l \<noteq> None) ls \<Longrightarrow>
   map (\<lambda>l. real_of_int (case l of LInt i \<Rightarrow> i | LFloat x \<Rightarrow> 0)) ls = map level_value ls"
  by (induction ls) (auto split: level.splits)

text \<open>The sort of one series gives the same order in both routines.\<close>

lemma sort_series_sim:
  assumes ok: "argsort_ok B" and sl: "same_lengths s" and il: "int_levels s"
  shows "\<exists>s'. sort_series B s = Inr s' \<and> sort_series_j B (as_series_j s) = Inr (as_series_j s') \<and>
              int_levels s'"
proof -
  define ks where "ks = map level_value (compression_levels s)"
  define idx where "idx = np_argsort B ks"
  from sort_series_total [OF ok sl] obtain s' where s': "sort_series B s = Inr s'" by blast
  note f = sort_series_Inr [OF s', folded ks_def idx_def]
  have ks': "map of_int (levels_j (as_series_j s)) = ks"
    using levels_value_map [OF il [unfolded int_levels_def]]
    by (simp add: as_series_j_def ks_def o_def)
  have len: "length ks = length (compression_levels s)" by (simp add: ks_def)
  have rng: "\<forall>i\<in>set idx. i < length (compression_levels s)"
    using argsort_ok_set [OF ok, of ks] len by (simp add: idx_def)
  have lens: "length (levels_j (as_series_j s)) = length ks"
      "length (ratios (as_series_j s)) = length ks"
      "length (compressed_sizes (as_series_j s)) = length ks"
      "length (compression_times (as_series_j s)) = length ks"
      "length (decompression_times (as_series_j s)) = length ks"
      "length (memory_usage_j (as_series_j s)) = length ks"
    using sl by (simp_all add: as_series_j_def same_lengths_def ks_def)
  have "sort_series_j B (as_series_j s) =
      Inr ((as_series_j s)\<lparr>levels_j := map (\<lambda>i. levels_j (as_series_j s) ! i) idx,
            ratios := map (\<lambda>i. ratios (as_series_j s) ! i) idx,
            compressed_sizes := map (\<lambda>i. compressed_sizes (as_series_j s) ! i) idx,
            compression_times := map (\<lambda>i. compression_times (as_series_j s) ! i) idx,
            decompression_times := map (\<lambda>i. decompression_times (as_series_j s) ! i) idx,
            memory_usage_j := map (\<lambda>i. memory_usage_j (as_series_j s) ! i) idx\<rparr>)"
    unfolding sort_series_j_def Let_def ks' idx_def [symmetric]
    by (simp add: take_indices_argsort [OF ok lens(1), folded idx_def]
        take_indices_argsort [OF ok lens(2), folded idx_def]
        take_indices_argsort [OF ok lens(3), folded idx_def]
        take_indices_argsort [OF ok lens(4), folded idx_def]
        take_indices_argsort [OF ok lens(5), folded idx_def]
        take_indices_argsort [OF ok lens(6), folded idx_def])
  also have "\<dots> = Inr (as_series_j s')"
    using f rng by (simp add: as_series_j_def)
  finally have j: "sort_series_j B (as_series_j s) = Inr (as_series_j s')" .
  have "int_levels s'"
    using il rng f(1) by (auto simp: int_levels_def list_all_iff)
  with s' j show ?thesis by blast
qed

lemma algorithms_agree_keys: "algorithms_agree B res resj \<Longrightarrow> map fst resj = map fst res"
  unfolding algorithms_agree_def by (induction res resj rule: list_all2_induct) auto

lemma results_agree_keys: "results_agree B rs rsj \<Longrightarrow> map fst rsj = map fst rs"
  unfolding results_agree_def by (induction rs rsj rule: list_all2_induct) auto

lemma algorithms_agree_snoc:
  "algorithms_agree B res resj \<Longrightarrow> series_agree B s sj \<Longrightarrow>
   algorithms_agree B (res @ [(a, s)]) (resj @ [(a, sj)])"
  unfolding algorithms_agree_def by (simp add: list_all2_appendI)

lemma results_agree_snoc:
  "results_agree B rs rsj \<Longrightarrow> algorithms_agree B res resj \<Longrightarrow>
   results_agree B (rs @ [(f, res)]) (rsj @ [(f, resj)])"
  unfolding results_agree_def by (simp add: list_all2_appendI)

lemma extract_algorithm_keys:
  assumes "extract_algorithm B res (alg, ls) = Inr res'"
  shows "fst ` set res' = insert alg (fst ` set res)"
proof -
  from assms obtain s2 where "res' = AList.update alg s2 res"
    by (auto simp: extract_algorithm_def Let_def split: sum.splits if_splits)
  then show ?thesis by (simp only: dom_update) simp
qed

lemma extract_algorithms_keys:
  "extract_algorithms B res algs = Inr res' \<Longrightarrow> fst ` set res' = fst ` set res \<union> fst ` set algs"
proof (induction algs arbitrary: res)
  case Nil
  then show ?case by simp
next
  case (Cons al algs)
  obtain alg ls where al: "al = (alg, ls)" by (cases al)
  from Cons.prems al obtain res1 where r1: "extract_algorithm B res (alg, ls) = Inr res1"
    and rest: "extract_algorithms B res1 algs = Inr res'"
    by (auto split: sum.splits)
  from Cons.IH [OF rest] extract_algorithm_keys [OF r1] al show ?case by auto
qed

lemma extract_file_keys:
  assumes "extract_file B rs (f, algs) = Inr rs'"
  shows "fst ` set rs' = insert f (fst ` set rs)"
proof -
  from assms obtain r1 where "rs' = AList.update f r1 rs"
    by (auto simp: extract_file_def Let_def split: sum.splits)
  then show ?thesis by (simp only: dom_update) simp
qed

lemma extract_files_keys:
  "extract_files B rs fd = Inr rs' \<Longrightarrow> fst ` set rs' = fst ` set rs \<union> fst ` set fd"
proof (induction fd arbitrary: rs)
  case Nil
  then show ?case by simp
next
  case (Cons fa fd)
  obtain f algs where fa: "fa = (f, algs)" by (cases fa)
  from Cons.prems fa obtain rs1 where r1: "extract_file B rs (f, algs) = Inr rs1"
    and rest: "extract_files B rs1 fd = Inr rs'"
    by (auto split: sum.splits)
  from Cons.IH [OF rest] extract_file_keys [OF r1] fa show ?case by auto
qed

text \<open>
  One algorithm, one file, one list entry, the whole document: \<^verbatim>\<open>extract_data\<close>
  and \<^verbatim>\<open>process_data\<close> move in step as long as every key they meet is new.
\<close>

lemma algorithm_sim:
  assumes ok: "argsort_ok B" and agree: "algorithms_agree B res resj"
    and fresh: "alg \<notin> fst ` set res" and plain: "algorithm_plain B (alg, ls)"
  shows "rel_sum (=) (algorithms_agree B)
           (extract_algorithm B res (alg, ls)) (process_algorithm B resj (alg, ls))"
proof -
  from plain obtain k m rest where ls: "ls = (k, m) # rest" and lp: "list_all (level_plain B) ls"
    by (cases ls) (auto simp: algorithm_plain_def)
  define s1 where "s1 = new_series\<lparr>original_size := Some (originalSize (compression m))\<rparr>"
  from fresh have none: "map_of res alg = None" by (rule map_of_fresh)
  from fresh algorithms_agree_keys [OF agree] have freshj: "alg \<notin> fst ` set resj"
    by (metis set_map)
  have e: "extract_algorithm B res (alg, ls) =
      (case process_levels B s1 ls of Inl e \<Rightarrow> Inl e | Inr s2 \<Rightarrow> Inr (res @ [(alg, s2)]))"
    using none update_fresh [OF fresh]
    by (simp add: extract_algorithm_def ls s1_def new_series_def cong: sum.case_cong)
  have p: "process_algorithm B resj (alg, ls) =
      (case process_levels_j B (as_series_j s1) ls of Inl e \<Rightarrow> Inl e
       | Inr s2 \<Rightarrow> (case sort_series_j B s2 of Inl e \<Rightarrow> Inl e
                     | Inr s3 \<Rightarrow> Inr (resj @ [(alg, s3)])))"
    using update_fresh [OF freshj]
    by (simp add: process_algorithm_def ls s1_def as_series_j_new Let_def cong: sum.case_cong)
  have s1: "same_lengths s1" "int_levels s1"
    by (simp_all add: s1_def same_lengths_def int_levels_def new_series_def)
  note sim = process_levels_sim [OF lp, of s1]
  show ?thesis
  proof (cases "process_levels B s1 ls")
    case (Inl err)
    with sim e p show ?thesis by simp
  next
    case (Inr s2)
    with sim have j: "process_levels_j B (as_series_j s1) ls = Inr (as_series_j s2)" by simp
    from process_levels_Inr [OF Inr] s1(1) have sl: "same_lengths s2" by simp
    from process_levels_int [OF lp Inr s1(2)] have il: "int_levels s2" .
    from sort_series_sim [OF ok sl il] obtain s3 where
      s3: "sort_series B s2 = Inr s3" "sort_series_j B (as_series_j s2) = Inr (as_series_j s3)"
      by blast
    from s3(1) sl il have "series_agree B s2 (as_series_j s3)"
      by (simp add: series_agree_def)
    from algorithms_agree_snoc [OF agree this]
    show ?thesis using e p Inr j s3(2) by simp
  qed
qed

lemma algorithms_sim:
  "argsort_ok B \<Longrightarrow> algorithms_agree B res resj \<Longrightarrow> distinct (map fst algs) \<Longrightarrow>
   fst ` set res \<inter> fst ` set algs = {} \<Longrightarrow> list_all (algorithm_plain B) algs \<Longrightarrow>
   rel_sum (=) (algorithms_agree B)
     (extract_algorithms B res algs) (process_algorithms B resj algs)"
proof (induction algs arbitrary: res resj)
  case Nil
  then show ?case by simp
next
  case (Cons al algs)
  obtain alg ls where al: "al = (alg, ls)" by (cases al)
  from Cons.prems(4) al have fresh: "alg \<notin> fst ` set res" by auto
  from Cons.prems(5) al have plain: "algorithm_plain B (alg, ls)"
    and rest: "list_all (algorithm_plain B) algs" by simp_all
  note step = algorithm_sim [OF Cons.prems(1,2) fresh plain]
  show ?case
  proof (cases "extract_algorithm B res (alg, ls)")
    case (Inl err)
    with step obtain err' where "process_algorithm B resj (alg, ls) = Inl err'" "err = err'"
      by (cases "process_algorithm B resj (alg, ls)") auto
    with Inl al show ?thesis by simp
  next
    case (Inr res1)
    with step obtain resj1 where j: "process_algorithm B resj (alg, ls) = Inr resj1"
      and agree1: "algorithms_agree B res1 resj1"
      by (cases "process_algorithm B resj (alg, ls)") auto
    from extract_algorithm_keys [OF Inr] Cons.prems(3,4) al
    have disj: "fst ` set res1 \<inter> fst ` set algs = {}" by auto
    from Cons.prems(3) have "distinct (map fst algs)" by simp
    from Cons.IH [OF Cons.prems(1) agree1 this disj rest]
    show ?thesis using Inr j al by simp
  qed
qed

lemma file_sim:
  assumes ok: "argsort_ok B" and agree: "results_agree B rs rsj"
    and fresh: "f \<notin> fst ` set rs" and plain: "file_plain B (f, algs)"
  shows "rel_sum (=) (results_agree B) (extract_file B rs (f, algs)) (process_test B rsj (f, algs))"
proof -
  from fresh have none: "map_of rs f = None" by (rule map_of_fresh)
  from fresh results_agree_keys [OF agree] have freshj: "f \<notin> fst ` set rsj"
    by (metis set_map)
  from plain have d: "distinct (map fst algs)" and pl: "list_all (algorithm_plain B) algs"
    by (simp_all add: file_plain_def)
  have "algorithms_agree B [] []" by (simp add: algorithms_agree_def)
  from algorithms_sim [OF ok this d _ pl]
  have step: "rel_sum (=) (algorithms_agree B)
      (extract_algorithms B [] algs) (process_algorithms B [] algs)" by simp
  show ?thesis
  proof (cases "extract_algorithms B [] algs")
    case (Inl err)
    with step obtain err' where "process_algorithms B [] algs = Inl err'" "err = err'"
      by (cases "process_algorithms B [] algs") auto
    with Inl none show ?thesis by (simp add: extract_file_def process_test_def)
  next
    case (Inr r1)
    with step obtain rj1 where j: "process_algorithms B [] algs = Inr rj1"
      and agree1: "algorithms_agree B r1 rj1"
      by (cases "process_algorithms B [] algs") auto
    from results_agree_snoc [OF agree agree1]
    show ?thesis using Inr j none update_fresh [OF fresh] update_fresh [OF freshj]
      by (simp add: extract_file_def process_test_def)
  qed
qed

lemma files_sim:
  "argsort_ok B \<Longrightarrow> results_agree B rs rsj \<Longrightarrow> distinct (map fst fd) \<Longrightarrow>
   fst ` set rs \<inter> fst ` set fd = {} \<Longrightarrow> list_all (file_plain B) fd \<Longrightarrow>
   rel_sum (=) (results_agree B) (extract_files B rs fd) (process_tests B rsj fd)"
proof (induction fd arbitrary: rs rsj)
  case Nil
  then show ?case by simp
next
  case (Cons fa fd)
  obtain f algs where fa: "fa = (f, algs)" by (cases fa)
  from Cons.prems(4) fa have fresh: "f \<notin> fst ` set rs" by auto
  from Cons.prems(5) fa have plain: "file_plain B (f, algs)"
    and rest: "list_all (file_plain B) fd" by simp_all
  note step = file_sim [OF Cons.prems(1,2) fresh plain]
  show ?case
  proof (cases "extract_file B rs (f, algs)")
    case (Inl err)
    with step obtain err' where "process_test B rsj (f, algs) = Inl err'" "err = err'"
      by (cases "process_test B rsj (f, algs)") auto
    with Inl fa show ?thesis by simp
  next
    case (Inr rs1)
    with step obtain rsj1 where j: "process_test B rsj (f, algs) = Inr rsj1"
      and agree1: "results_agree B rs1 rsj1"
      by (cases "process_test B rsj (f, algs)") auto
    from extract_file_keys [OF Inr] Cons.prems(3,4) fa
    have disj: "fst ` set rs1 \<inter> fst ` set fd = {}" by auto
    from Cons.prems(3) have "distinct (map fst fd)" by simp
    from Cons.IH [OF Cons.prems(1) agree1 this disj rest]
    show ?thesis using Inr j fa by simp
  qed
qed

lemma json_sim:
  "argsort_ok B \<Longrightarrow> results_agree B rs rsj \<Longrightarrow> distinct (map fst (concat json_data)) \<Longrightarrow>
   fst ` set rs \<inter> fst ` set (concat json_data) = {} \<Longrightarrow>
   list_all (file_plain B) (concat json_data) \<Longrightarrow>
   rel_sum (=) (results_agree B) (extract_json B rs json_data) (process_json B rsj json_data)"
proof (induction json_data arbitrary: rs rsj)
  case Nil
  then show ?case by simp
next
  case (Cons fd json_data)
  from Cons.prems(3) have d1: "distinct (map fst fd)" and d2: "distinct (map fst (concat json_data))"
    and d3: "fst ` set fd \<inter> fst ` set (concat json_data) = {}"
    by (simp_all add: image_Union)
  from Cons.prems(4) have x1: "fst ` set rs \<inter> fst ` set fd = {}"
    and x2: "fst ` set rs \<inter> fst ` set (concat json_data) = {}"
    by (auto simp: image_Un)
  from Cons.prems(5) have p1: "list_all (file_plain B) fd"
    and p2: "list_all (file_plain B) (concat json_data)" by simp_all
  note step = files_sim [OF Cons.prems(1,2) d1 x1 p1]
  show ?case
  proof (cases "extract_files B rs fd")
    case (Inl err)
    with step obtain err' where "process_tests B rsj fd = Inl err'" "err = err'"
      by (cases "process_tests B rsj fd") auto
    with Inl show ?thesis by simp
  next
    case (Inr rs1)
    with step obtain rsj1 where j: "process_tests B rsj fd = Inr rsj1"
      and agree1: "results_agree B rs1 rsj1"
      by (cases "process_tests B rsj fd") auto
    have disj: "fst ` set rs1 \<inter> fst ` set (concat json_data) = {}"
      unfolding extract_files_keys [OF Inr]
      by (simp only: Int_Un_distrib2 x2 d3 Un_empty_left)
    from Cons.IH [OF Cons.prems(1) agree1 d2 disj p2]
    show ?thesis using Inr j by simp
  qed
qed

lemma sort_algorithms_agree:
  assumes ok: "argsort_ok B"
  shows "algorithms_agree B res resj \<Longrightarrow>
   \<exists>res'. sort_algorithms B res = Inr res' \<and>
          list_all2 (\<lambda>(a, s) (b, sj). a = b \<and> common_fields s = Some sj) res' resj"
  unfolding algorithms_agree_def
proof (induction res resj rule: list_all2_induct)
  case Nil
  then show ?case by simp
next
  case (Cons p res q resj)
  obtain a s where p: "p = (a, s)" by (cases p)
  obtain b sj where q: "q = (b, sj)" by (cases q)
  from Cons.hyps(1) p q have ab: "a = b" and ag: "series_agree B s sj" by simp_all
  from ag have il: "int_levels s" and sl: "same_lengths s" by (simp_all add: series_agree_def)
  from sort_series_sim [OF ok sl il] obtain s' where
    s': "sort_series B s = Inr s'" "int_levels s'" by blast
  with ag have sj: "sj = as_series_j s'" by (simp add: series_agree_def)
  from Cons.IH obtain res' where
    "sort_algorithms B res = Inr res'"
    "list_all2 (\<lambda>(a, s) (b, sj). a = b \<and> common_fields s = Some sj) res' resj"
    by blast
  with s' sj ab p q show ?case by (simp add: common_fields_def)
qed

lemma sort_data_agree:
  assumes ok: "argsort_ok B"
  shows "results_agree B rs rsj \<Longrightarrow>
   \<exists>rs'. sort_data_by_level B rs = Inr rs' \<and> same_model rs' rsj"
  unfolding results_agree_def
proof (induction rs rsj rule: list_all2_induct)
  case Nil
  then show ?case by (simp add: same_model_def)
next
  case (Cons p rs q rsj)
  obtain f res where p: "p = (f, res)" by (cases p)
  obtain g resj where q: "q = (g, resj)" by (cases q)
  from Cons.hyps(1) p q have fg: "f = g" and ag: "algorithms_agree B res resj" by simp_all
  from sort_algorithms_agree [OF ok ag] obtain res' where
    r: "sort_algorithms B res = Inr res'"
      "list_all2 (\<lambda>(a, s) (b, sj). a = b \<and> common_fields s = Some sj) res' resj"
    by blast
  from Cons.IH obtain rs' where "sort_data_by_level B rs = Inr rs'" "same_model rs' rsj"
    by blast
  with r fg p q show ?case by (simp add: same_model_def)
qed

lemma normalizations_rel:
  assumes ok: "argsort_ok B" and plain: "plain_document B json_data"
  shows "rel_sum (=) same_model (extract_data B json_data) (process_data B json_data)"
proof -
  from plain have d: "distinct (map fst (concat json_data))"
    and p: "list_all (file_plain B) (concat json_data)"
    by (simp_all add: plain_document_def)
  have "results_agree B [] []" by (simp add: results_agree_def)
  from json_sim [OF ok this d _ p]
  have step: "rel_sum (=) (results_agree B)
      (extract_json B [] json_data) (process_json B [] json_data)" by simp
  show ?thesis
  proof (cases "extract_json B [] json_data")
    case (Inl err)
    with step obtain err' where "process_json B [] json_data = Inl err'" "err = err'"
      by (cases "process_json B [] json_data") auto
    with Inl show ?thesis by (simp add: extract_data_def process_data_def)
  next
    case (Inr rs0)
    with step obtain rsj where j: "process_json B [] json_data = Inr rsj"
      and agree: "results_agree B rs0 rsj"
      by (cases "process_json B [] json_data") auto
    from sort_data_agree [OF ok agree] obtain rs' where
      "sort_data_by_level B rs0 = Inr rs'" "same_model rs' rsj" by blast
    with Inr j show ?thesis by (simp add: extract_data_def process_data_def)
  qed
qed

lemmas eval_j_defs = process_data_def process_test_def process_algorithm_def append_level_j_def
  level_key_int_only_def sort_series_j_def new_series_j_def

lemma scenario_result_j:
  "process_data std scenario_document =
     Inr [(''fileA'',
           [(''zstd'',
             \<lparr>levels_j = [1, 3], ratios = [1.67, 2.5], compressed_sizes = [600, 400],
              compression_times = [1, 2], decompression_times = [0.1, 0.2],
              memory_usage_j = [500, 600], original_size_j = Some 1000\<rparr>)])]"
  by (simp add: eval_j_defs eval_defs scenario_document_def)

lemma repeated_result_j:
  "process_data std repeated_document =
     Inr [(''fileA'',
           [(''zstd'',
             \<lparr>levels_j = [1], ratios = [2.5], compressed_sizes = [400],
              compression_times = [2], decompression_times = [0.2],
              memory_usage_j = [600], original_size_j = Some 1000\<rparr>)])]"
  by (simp add: eval_j_defs eval_defs repeated_document_def)

text \<open>
  C10, as stated, fails: for a file listed in two entries \<^verbatim>\<open>extract_data\<close> collects
  the records of both entries, while \<^verbatim>\<open>process_data\<close> starts the file afresh
  (\<^verbatim>\<open>results[test_name] = {}\<close>) and keeps the records of the last entry only.
\<close>

theorem repeated_file_counterexample:
  "extract_data std repeated_document =
     Inr [(''fileA'',
           [(''zstd'',
             \<lparr>compression_levels = [LInt 1, LInt 1], compression_ratio = [1.67, 2.5],
              compressed_percentage = [60, 40], compression_time = [1, 2],
              decompression_time = [0.1, 0.2], original_size = Some 1000,
              compressed_size = [600, 400], memory_usage = [500, 600]\<rparr>)])] \<and>
   process_data std repeated_document =
     Inr [(''fileA'',
           [(''zstd'',
             \<lparr>levels_j = [1], ratios = [2.5], compressed_sizes = [400],
              compression_times = [2], decompression_times = [0.2],
              memory_usage_j = [600], original_size_j = Some 1000\<rparr>)])] \<and>
   \<not> same_model
       [(''fileA'',
           [(''zstd'',
             \<lparr>compression_levels = [LInt 1, LInt 1], compression_ratio = [1.67, 2.5],
              compressed_percentage = [60, 40], compression_time = [1, 2],
              decompression_time = [0.1, 0.2], original_size = Some 1000,
              compressed_size = [600, 400], memory_usage = [500, 600]\<rparr>)])]
       [(''fileA'',
           [(''zstd'',
             \<lparr>levels_j = [1], ratios = [2.5], compressed_sizes = [400],
              compression_times = [2], decompression_times = [0.2],
              memory_usage_j = [600], original_size_j = Some 1000\<rparr>)])]"
  using repeated_result_std repeated_result_j
  by (simp add: same_model_def common_fields_def int_levels_def as_series_j_def)

text \<open>
  C10 (amended): on every document in which no file name is listed twice, every
  algorithm has at least one level, every level identifier is accepted by \<^verbatim>\<open>int\<close>
  and every \<^verbatim>\<open>compressedPercentage\<close> by \<^verbatim>\<open>float\<close>, \<^verbatim>\<open>extract_data\<close> and
  \<^verbatim>\<open>process_data\<close> either both return, with the same files and algorithms in the
  same order and, for each pair, the same levels, ratios, compressed sizes, compression
  times, decompression times, memory usages and original size, or both raise the same
  exception (a duration that \<^verbatim>\<open>float\<close> rejects).
\<close>

theorem normalizations_agree:
  assumes "argsort_ok B" "plain_document B json_data"
  shows "(\<exists>rs rj. extract_data B json_data = Inr rs \<and> process_data B json_data = Inr rj \<and>
                  same_model rs rj) \<or>
         (\<exists>e. extract_data B json_data = Inl e \<and> process_data B json_data = Inl e)"
  using normalizations_rel [OF assms]
  by (cases "extract_data B json_data"; cases "process_data B json_data") simp_all

theorem normalizations_agree_witness:
  "argsort_ok std \<and> plain_document std scenario_document \<and>
   extract_data std scenario_document =
     Inr [(''fileA'',
           [(''zstd'',
             \<lparr>compression_levels = [LInt 1, LInt 3], compression_ratio = [1.67, 2.5],
              compressed_percentage = [60, 40], compression_time = [1, 2],
              decompression_time = [0.1, 0.2], original_size = Some 1000,
              compressed_size = [600, 400], memory_usage = [500, 600]\<rparr>)])] \<and>
   process_data std scenario_document =
     Inr [(''fileA'',
           [(''zstd'',
             \<lparr>levels_j = [1, 3], ratios = [1.67, 2.5], compressed_sizes = [600, 400],
              compression_times = [1, 2], decompression_times = [0.1, 0.2],
              memory_usage_j = [500, 600], original_size_j = Some 1000\<rparr>)])] \<and>
   same_model
     [(''fileA'',
           [(''zstd'',
             \<lparr>compression_levels = [LInt 1, LInt 3], compression_ratio = [1.67, 2.5],
              compressed_percentage = [60, 40], compression_time = [1, 2],
              decompression_time = [0.1, 0.2], original_size = Some 1000,
              compressed_size = [600, 400], memory_usage = [500, 600]\<rparr>)])]
     [(''fileA'',
           [(''zstd'',
             \<lparr>levels_j = [1, 3], ratios = [1.67, 2.5], compressed_sizes = [600, 400],
              compression_times = [1, 2], decompression_times = [0.1, 0.2],
              memory_usage_j = [500, 600], original_size_j = Some 1000\<rparr>)])]"
proof -
  have p: "plain_document std scenario_document"
    by (simp add: plain_document_def file_plain_def algorithm_plain_def level_plain_def
        scenario_document_def level1_metrics_def level3_metrics_def literal_defs)
  from normalizations_agree [OF std_argsort_ok p] std_argsort_ok p
    scenario_result scenario_result_j
  show ?thesis by simp
qed

section \<open>The order among equal keys\<close>

text \<open>
  When the argsort that \<^verbatim>\<open>numpy\<close> runs is the stable one, the sorted series is the
  stable sort of the records met, and records with one level key keep their input
  order. The scripts do not ask for it (no \<^verbatim>\<open>kind='stable'\<close>).
\<close>

lemma map_insort_key:
  assumes "f x = g (h x)" "\<forall>y\<in>set xs. f y = g (h y)"
  shows "map h (insort_key f x xs) = insort_key g (h x) (map h xs)"
  using assms by (induction xs) auto

lemma map_sort_key:
  "\<forall>y\<in>set xs. f y = g (h y) \<Longrightarrow> map h (sort_key f xs) = sort_key g (map h xs)"
proof (induction xs)
  case Nil
  then show ?case by simp
next
  case (Cons x xs)
  then have "\<forall>y\<in>set (sort_key f xs). f y = g (h y)" by simp
  with Cons show ?case by (simp add: map_insort_key)
qed

lemma zip_map_same: "zip (map f xs) (map g xs) = map (\<lambda>x. (f x, g x)) xs"
  by (induction xs) auto

lemma level_records_nth:
  assumes "same_lengths s" "i < length (compression_levels s)"
  shows "level_records s ! i =
     (compression_levels s ! i, compression_ratio s ! i, compressed_percentage s ! i,
      compression_time s ! i, decompression_time s ! i, compressed_size s ! i,
      memory_usage s ! i)"
  using assms by (simp add: level_records_def same_lengths_def)

lemma level_records_length:
  "same_lengths s \<Longrightarrow> length (level_records s) = length (compression_levels s)"
  by (simp add: level_records_def same_lengths_def)

lemma sort_series_records:
  assumes sl: "same_lengths s" and srt: "sort_series B s = Inr s'"
  shows "level_records s' =
     map (\<lambda>i. level_records s ! i) (np_argsort B (map level_value (compression_levels s)))"
proof -
  note f = sort_series_Inr [OF srt]
  have "level_records s' =
      map (\<lambda>i. (compression_levels s ! i, compression_ratio s ! i, compressed_percentage s ! i,
        compression_time s ! i, decompression_time s ! i, compressed_size s ! i,
        memory_usage s ! i)) (np_argsort B (map level_value (compression_levels s)))"
    unfolding level_records_def f(1-7) by (simp only: zip_map_same)
  also have "\<dots> = map (\<lambda>i. level_records s ! i) (np_argsort B (map level_value (compression_levels s)))"
    using f(9) by (intro map_cong refl) (simp add: level_records_nth [OF sl])
  finally show ?thesis .
qed

lemma sort_series_stable:
  assumes st: "np_argsort B = stable_argsort" and sl: "same_lengths s"
    and srt: "sort_series B s = Inr s'"
  shows "level_records s' = sort_key (level_value \<circ> fst) (level_records s)"
    and "keeps_input_order (level_records s) (level_records s')"
proof -
  let ?recs = "level_records s"
  let ?ks = "map level_value (compression_levels s)"
  let ?n = "length (compression_levels s)"
  have key: "\<forall>i\<in>set [0..<?n]. ?ks ! i = (level_value \<circ> fst) (?recs ! i)"
    by (simp add: level_records_nth [OF sl])
  have "level_records s' = map (\<lambda>i. ?recs ! i) (sort_key (\<lambda>i. ?ks ! i) [0..<?n])"
    using sort_series_records [OF sl srt] by (simp add: st stable_argsort_def)
  also have "\<dots> = sort_key (level_value \<circ> fst) (map (\<lambda>i. ?recs ! i) [0..<?n])"
    using key by (rule map_sort_key)
  also have "map (\<lambda>i. ?recs ! i) [0..<?n] = ?recs"
    using map_nth [of ?recs] by (simp add: level_records_length [OF sl])
  finally show eq: "level_records s' = sort_key (level_value \<circ> fst) ?recs" .
  have "filter (\<lambda>r. level_value (fst r) = k) (sort_key (level_value \<circ> fst) ?recs)
      = filter (\<lambda>r. level_value (fst r) = k) ?recs" for k
    using sort_key_stable [of "level_value \<circ> fst" k ?recs] by (simp add: o_def)
  then show "keeps_input_order ?recs (level_records s')"
    by (simp add: keeps_input_order_def eq list_all_iff)
qed

end
